theory Spec2Isabelle
  imports Main
begin

section \<open>Candidate model\<close>

text \<open>
  The script \<^verbatim>\<open>filter-sparql-portals.mjs\<close> tags every candidate URL with its origin,
  the string \<^verbatim>\<open>"explicit"\<close> or \<^verbatim>\<open>"guessed"\<close> (\<^verbatim>\<open>collectCandidates\<close>). JavaScript
  strings are sequences of code units; they are modelled as \<^typ>\<open>string\<close>, so only code
  units below 256 are covered.
\<close>

datatype source = Explicit | Guessed

record candidate =
  c_url :: string
  c_source :: source

text \<open>A prepared portal, \<^verbatim>\<open>{ raw: p, sparqlCandidates: collectCandidates(p) }\<close>. The
  portal object itself is opaque to the engine.\<close>

record 'r prepared =
  raw :: 'r
  sparqlCandidates :: "candidate list"

datatype mode = ask_get | ask_post | service_description

text \<open>The value \<^verbatim>\<open>{ ok, mode }\<close> returned by \<^verbatim>\<open>validateSparqlEndpoint\<close>; a \<^verbatim>\<open>null\<close>
  mode is \<^term>\<open>None\<close>.\<close>

record ProbeOutcome =
  ok :: bool
  mode :: "mode option"

text \<open>An entry \<^verbatim>\<open>{ url, source, mode }\<close> of a portal's verified map.\<close>

record verified =
  v_url :: string
  v_source :: source
  v_mode :: "mode option"

section \<open>Selection policy\<close>

text \<open>
  \<^verbatim>\<open>
  function choosePreferred(candidates) {
    const exp = candidates.find((c) => c.source === "explicit");
    if (exp) return exp;
    return candidates[0] ?? null;
  }
  \<close>
  \<^verbatim>\<open>find\<close> yields \<^verbatim>\<open>undefined\<close> when nothing matches, and \<^verbatim>\<open>candidates[0]\<close> is
  \<^verbatim>\<open>undefined\<close> on the empty array; \<^term>\<open>None\<close> is the \<^verbatim>\<open>null\<close> result.
\<close>

definition choosePreferred :: "candidate list \<Rightarrow> candidate option" where
  "choosePreferred candidates =
     (case find (\<lambda>c. c_source c = Explicit) candidates of
        Some exp \<Rightarrow> Some exp
      | None \<Rightarrow> (case candidates of [] \<Rightarrow> None | c # _ \<Rightarrow> Some c))"

text \<open>
  The verification mode selects inline, on the values of the portal's verified map:
  \<^verbatim>\<open>const chosen = verified.find((v) => v.source === "explicit") ?? verified[0];\<close>
  Here \<^term>\<open>None\<close> is \<^verbatim>\<open>undefined\<close>.
\<close>

definition chosenVerified :: "verified list \<Rightarrow> verified option" where
  "chosenVerified verified =
     (case find (\<lambda>v. v_source v = Explicit) verified of
        Some exp \<Rightarrow> Some exp
      | None \<Rightarrow> (case verified of [] \<Rightarrow> None | v # _ \<Rightarrow> Some v))"


section \<open>Strings\<close>

text \<open>
  The string methods the classifier uses, on code units below 256.
  \<^verbatim>\<open>toLowerCase\<close> maps \<^verbatim>\<open>A\<close>--\<^verbatim>\<open>Z\<close> and the upper-case letters of Latin-1 (code units
  192 to 222 without the multiplication sign 215) to the code unit 32 above.
\<close>

definition lower_unit :: "char \<Rightarrow> char" where
  "lower_unit c =
     (let n = (of_char c :: nat)
      in if (65 \<le> n \<and> n \<le> 90) \<or> (192 \<le> n \<and> n \<le> 222 \<and> n \<noteq> 215)
         then char_of (n + 32) else c)"

definition toLowerCase :: "string \<Rightarrow> string" where
  "toLowerCase s = map lower_unit s"

definition startsWith :: "string \<Rightarrow> string \<Rightarrow> bool" where
  "startsWith s p = (take (length p) s = p)"

fun includesStr :: "string \<Rightarrow> string \<Rightarrow> bool" where
  "includesStr [] sub = (sub = [])"
| "includesStr (c # cs) sub = (startsWith (c # cs) sub \<or> includesStr cs sub)"

text \<open>\<^verbatim>\<open>trim\<close> removes white space and line terminators from both ends; below 256 these
  are the code units 9 to 13, 32 and 160.\<close>

definition is_space :: "char \<Rightarrow> bool" where
  "is_space c = (let n = (of_char c :: nat) in (9 \<le> n \<and> n \<le> 13) \<or> n = 32 \<or> n = 160)"

definition trim :: "string \<Rightarrow> string" where
  "trim s = rev (dropWhile is_space (rev (dropWhile is_space s)))"

section \<open>The regular expression of the XML check\<close>

text \<open>
  \<^verbatim>\<open>/<sparql\b[^>]*>[\s\S]*<boolean>(true|false)<\/boolean>[\s\S]*<\/sparql>/i\<close>

  The pattern is a sequence of pattern characters, character classes under \<^verbatim>\<open>*\<close>, the
  assertion \<^verbatim>\<open>\b\<close> and one group of alternative words. With the flag \<^verbatim>\<open>i\<close> and without
  \<^verbatim>\<open>u\<close> two code units match when their canonical forms are equal: the upper-case forms,
  where a code unit from 128 on never takes an ASCII form. The canonical forms of the
  code units 181 and 255 lie above 255; such a code unit is kept as it is here, which
  changes no comparison between code units below 256.
\<close>

definition canonicalize :: "char \<Rightarrow> char" where
  "canonicalize c =
     (let n = (of_char c :: nat)
      in if (97 \<le> n \<and> n \<le> 122) \<or> (224 \<le> n \<and> n \<le> 254 \<and> n \<noteq> 247)
         then char_of (n - 32) else c)"

text \<open>The word characters of \<^verbatim>\<open>\b\<close>: letters, digits and the underscore.\<close>

definition is_word :: "char \<Rightarrow> bool" where
  "is_word c =
     (let n = (of_char c :: nat)
      in (48 \<le> n \<and> n \<le> 57) \<or> (65 \<le> n \<and> n \<le> 90) \<or> (97 \<le> n \<and> n \<le> 122) \<or> n = 95)"

datatype atom =
    Lit char
  | NoneOf "char list"
  | AnyUnit

datatype item =
    One atom
  | Star atom
  | WordBoundary
  | Words "string list"

fun atom_matches :: "atom \<Rightarrow> char \<Rightarrow> bool" where
  "atom_matches (Lit a) c = (canonicalize c = canonicalize a)"
| "atom_matches (NoneOf as) c = (canonicalize c \<notin> set (map canonicalize as))"
| "atom_matches AnyUnit c = True"

text \<open>\<open>words_match w s\<close>: the string \<open>s\<close> begins with the word \<open>w\<close>, up to case.\<close>

definition words_match :: "string \<Rightarrow> string \<Rightarrow> bool" where
  "words_match w s =
     (length w \<le> length s \<and> map canonicalize (take (length w) s) = map canonicalize w)"

text \<open>The code unit before the current position, for \<^verbatim>\<open>\b\<close>, after \<open>w\<close> has been read.\<close>

definition after_word :: "char option \<Rightarrow> string \<Rightarrow> char option" where
  "after_word prev w = (if w = [] then prev else Some (last w))"

definition at_boundary :: "char option \<Rightarrow> string \<Rightarrow> bool" where
  "at_boundary prev s =
     ((case prev of None \<Rightarrow> False | Some c \<Rightarrow> is_word c) \<noteq>
      (case s of [] \<Rightarrow> False | c # _ \<Rightarrow> is_word c))"

text \<open>
  The backtracking matcher: \<open>matches_here items prev s\<close> holds when the items match a
  prefix of \<open>s\<close>, the code unit before \<open>s\<close> being \<open>prev\<close>. \<^verbatim>\<open>RegExp.prototype.test\<close>
  tries every start position.
\<close>

fun matches_here :: "item list \<Rightarrow> char option \<Rightarrow> string \<Rightarrow> bool" where
  "matches_here [] prev s = True"
| "matches_here (One a # items) prev [] = False"
| "matches_here (One a # items) prev (c # cs) =
     (atom_matches a c \<and> matches_here items (Some c) cs)"
| "matches_here (Star a # items) prev [] = matches_here items prev []"
| "matches_here (Star a # items) prev (c # cs) =
     ((atom_matches a c \<and> matches_here (Star a # items) (Some c) cs) \<or>
      matches_here items prev (c # cs))"
| "matches_here (WordBoundary # items) prev s = (at_boundary prev s \<and> matches_here items prev s)"
| "matches_here (Words ws # items) prev s =
     (\<exists>w\<in>set ws. words_match w s \<and>
        matches_here items (after_word prev (take (length w) s)) (drop (length w) s))"

fun test_from :: "item list \<Rightarrow> char option \<Rightarrow> string \<Rightarrow> bool" where
  "test_from items prev [] = matches_here items prev []"
| "test_from items prev (c # cs) =
     (matches_here items prev (c # cs) \<or> test_from items (Some c) cs)"

definition test :: "item list \<Rightarrow> string \<Rightarrow> bool" where
  "test items s = test_from items None s"

definition chars :: "string \<Rightarrow> item list" where
  "chars w = map (\<lambda>c. One (Lit c)) w"

definition sparqlAskPattern :: "item list" where
  "sparqlAskPattern =
     chars ''<sparql'' @ [WordBoundary, Star (NoneOf ''>''), One (Lit CHR ''>''), Star AnyUnit] @
     chars ''<boolean>'' @ [Words [''true'', ''false'']] @ chars ''</boolean>'' @
     [Star AnyUnit] @ chars ''</sparql>''"


section \<open>Unique candidates\<close>

text \<open>
  \<^verbatim>\<open>
  function uniqueCandidates(arr) {
    const seen = new Set();
    const out = [];
    for (const x of arr) {
      if (!x?.url) continue;
      const u = x.url.trim();
      if (!seen.has(u)) { seen.add(u); out.push({ url: u, source: x.source }); }
    }
    return out;
  }
  \<close>
  \<^verbatim>\<open>collectCandidates\<close> calls it with objects whose \<^verbatim>\<open>url\<close> is a string; the empty string
  is the falsy one. The loop carries \<^verbatim>\<open>seen\<close> and \<^verbatim>\<open>out\<close>.
\<close>

fun uniqueCandidates_loop :: "string set \<Rightarrow> candidate list \<Rightarrow> candidate list \<Rightarrow> candidate list" where
  "uniqueCandidates_loop seen out [] = out"
| "uniqueCandidates_loop seen out (x # arr) =
     (if c_url x = [] then uniqueCandidates_loop seen out arr
      else
        (let u = trim (c_url x)
         in if u \<notin> seen
            then uniqueCandidates_loop (insert u seen) (out @ [\<lparr>c_url = u, c_source = c_source x\<rparr>]) arr
            else uniqueCandidates_loop seen out arr))"

definition uniqueCandidates :: "candidate list \<Rightarrow> candidate list" where
  "uniqueCandidates arr = uniqueCandidates_loop {} [] arr"


section \<open>Response classifier\<close>

text \<open>
  \<^verbatim>\<open>
  function looksLikeHtml(contentType, text) {
    const ct = (contentType ?? "").toLowerCase();
    if (ct.includes("text/html")) return true;
    const t = (text ?? "").trim().slice(0, 500).toLowerCase();
    if (t.startsWith("<!doctype html")) return true;
    if (t.startsWith("<html")) return true;
    return false;
  }
  \<close>
  Both arguments are strings at every call.
\<close>

definition looksLikeHtml :: "string \<Rightarrow> string \<Rightarrow> bool" where
  "looksLikeHtml contentType text =
     (let ct = toLowerCase contentType
      in if includesStr ct ''text/html'' then True
         else
           (let t = toLowerCase (take 500 (trim text))
            in if startsWith t ''<!doctype html'' then True
               else if startsWith t ''<html'' then True
               else False))"

text \<open>
  A value returned by \<^verbatim>\<open>JSON.parse\<close>; of a number nothing is observed. The parser
  belongs to the platform; it is a parameter of the model, with \<^term>\<open>None\<close> for a
  \<^verbatim>\<open>SyntaxError\<close>.
\<close>

datatype json =
    JNull
  | JBoolean bool
  | JNumber
  | JString string
  | JArray "json list"
  | JObject "(string \<times> json) list"

text \<open>
  \<^verbatim>\<open>
  function looksLikeJsonAsk(text) {
    try {
      const v = JSON.parse(text);
      return typeof v?.boolean === "boolean";
    } catch { return false; }
  }
  \<close>
  Only an object can have the property \<^verbatim>\<open>boolean\<close>: on \<^verbatim>\<open>null\<close> the optional chain
  yields \<^verbatim>\<open>undefined\<close>, and so does the property read on a boolean, a number, a string
  or an array.
\<close>

definition looksLikeJsonAsk :: "(string \<Rightarrow> json option) \<Rightarrow> string \<Rightarrow> bool" where
  "looksLikeJsonAsk JSON_parse text =
     (case JSON_parse text of
        None \<Rightarrow> False
      | Some v \<Rightarrow>
          (case v of
             JObject props \<Rightarrow>
               (case map_of props ''boolean'' of Some (JBoolean b) \<Rightarrow> True | _ \<Rightarrow> False)
           | _ \<Rightarrow> False))"

text \<open>
  \<^verbatim>\<open>
  function looksLikeXmlAsk(text) {
    const t = (text ?? "").slice(0, 200000);
    return /<sparql\b[^>]*>[\s\S]*<boolean>(true|false)<\/boolean>[\s\S]*<\/sparql>/i.test(t);
  }
  \<close>
\<close>

definition looksLikeXmlAsk :: "string \<Rightarrow> bool" where
  "looksLikeXmlAsk text = (let t = take 200000 text in test sparqlAskPattern t)"

text \<open>
  \<^verbatim>\<open>
  function isRdfContentType(ct) {
    const s = (ct ?? "").toLowerCase();
    return s.includes("text/turtle") || s.includes("application/rdf+xml")
      || s.includes("application/ld+json") || s.includes("application/n-triples")
      || s.includes("application/n-quads") || s.includes("text/n3")
      || s.includes("application/trig");
  }
  \<close>
\<close>

definition isRdfContentType :: "string \<Rightarrow> bool" where
  "isRdfContentType ct =
     (let s = toLowerCase ct
      in includesStr s ''text/turtle''
       \<or> includesStr s ''application/rdf+xml''
       \<or> includesStr s ''application/ld+json''
       \<or> includesStr s ''application/n-triples''
       \<or> includesStr s ''application/n-quads''
       \<or> includesStr s ''text/n3''
       \<or> includesStr s ''application/trig'')"

text \<open>
  \<^verbatim>\<open>
  function looksLikeServiceDescription(text) {
    const t = (text ?? "").slice(0, 300000).toLowerCase();
    if (t.includes("http://www.w3.org/ns/sparql-service-description#")) return true;
    if (t.includes("sd:service")) return true;
    if (t.includes("sd:endpoint")) return true;
    if (t.includes("void:sparqlendpoint")) return true;
    return false;
  }
  \<close>
\<close>

definition looksLikeServiceDescription :: "string \<Rightarrow> bool" where
  "looksLikeServiceDescription text =
     (let t = toLowerCase (take 300000 text)
      in if includesStr t ''http://www.w3.org/ns/sparql-service-description#'' then True
         else if includesStr t ''sd:service'' then True
         else if includesStr t ''sd:endpoint'' then True
         else if includesStr t ''void:sparqlendpoint'' then True
         else False)"

section \<open>Endpoint prober\<close>

subsection \<open>Requests and the platform\<close>

text \<open>
  A request as \<^verbatim>\<open>fetchText\<close> passes it to \<^verbatim>\<open>fetch\<close>: the URL, the fields of \<^verbatim>\<open>init\<close>
  and the delay after which the request is aborted. The answer of the network is a
  response, or \<^term>\<open>None\<close> when \<^verbatim>\<open>fetch\<close> rejects (transport failure, abort on timeout);
  of the response the code reads \<^verbatim>\<open>ok\<close>, the \<^verbatim>\<open>content-type\<close> header, which may be
  missing, and the body, whose reading may fail as well.
\<close>

datatype http_method = GET | POST

record request =
  rq_url :: string
  rq_method :: http_method
  rq_accept :: string
  rq_content_type :: "string option"
  rq_body :: "string option"
  rq_timeoutMs :: int

record response =
  rs_ok :: bool
  rs_content_type :: "string option"
  rs_text :: "string option"

text \<open>
  What the script takes from its platform. \<open>fetch\<close> answers a request; the answer may
  depend on the requests sent before. \<open>JSON_parse\<close> is \<^verbatim>\<open>JSON.parse\<close>.
  \<open>URL_with_query endpoint name value\<close> stands for
  \<^verbatim>\<open>const u = new URL(endpoint); u.searchParams.set(name, value); u.toString()\<close>, with
  \<^term>\<open>None\<close> when the constructor throws because \<open>endpoint\<close> is no valid URL.
  \<open>URLSearchParams_toString name value\<close> stands for
  \<^verbatim>\<open>new URLSearchParams({ [name]: value }).toString()\<close>.
\<close>

record platform =
  fetch :: "request list \<Rightarrow> request \<Rightarrow> response option"
  JSON_parse :: "string \<Rightarrow> json option"
  URL_with_query :: "string \<Rightarrow> string \<Rightarrow> string \<Rightarrow> string option"
  URLSearchParams_toString :: "string \<Rightarrow> string \<Rightarrow> string"

text \<open>The object \<^verbatim>\<open>{ res, ct, text }\<close> that \<^verbatim>\<open>fetchText\<close> returns; \<open>f_res\<close> is \<^term>\<open>None\<close>
  for \<^verbatim>\<open>null\<close> and else holds \<^verbatim>\<open>res.ok\<close>.\<close>

record fetched =
  f_res :: "bool option"
  f_ct :: string
  f_text :: string

text \<open>
  \<^verbatim>\<open>
  async function fetchText(url, init, timeoutMs) {
    const controller = new AbortController();
    const t = setTimeout(() => controller.abort(), timeoutMs);
    try {
      const res = await fetch(url, { ...init, signal: controller.signal, redirect: "follow" });
      const ct = res.headers.get("content-type") ?? "";
      const text = await res.text();
      return { res, ct, text };
    } catch {
      return { res: null, ct: "", text: "" };
    } finally { clearTimeout(t); }
  }
  \<close>
  The second component is the list of the requests sent so far.
\<close>

definition fetchText :: "platform \<Rightarrow> request \<Rightarrow> request list \<Rightarrow> fetched \<times> request list" where
  "fetchText pf rq sent =
     (case fetch pf sent rq of
        None \<Rightarrow> (\<lparr>f_res = None, f_ct = '''', f_text = ''''\<rparr>, sent @ [rq])
      | Some rs \<Rightarrow>
          (case rs_text rs of
             None \<Rightarrow> (\<lparr>f_res = None, f_ct = '''', f_text = ''''\<rparr>, sent @ [rq])
           | Some text \<Rightarrow>
               (\<lparr>f_res = Some (rs_ok rs),
                 f_ct = (case rs_content_type rs of None \<Rightarrow> '''' | Some ct \<Rightarrow> ct),
                 f_text = text\<rparr>, sent @ [rq])))"

subsection \<open>The three strategies\<close>

definition askAccept :: string where
  "askAccept = ''application/sparql-results+json, application/sparql-results+xml;q=0.9, application/json;q=0.8, application/xml;q=0.8, text/xml;q=0.8, */*;q=0.1''"

definition descriptionAccept :: string where
  "descriptionAccept = ''text/turtle, application/rdf+xml;q=0.9, application/ld+json;q=0.9, application/n-triples;q=0.8, text/n3;q=0.7, */*;q=0.1''"

text \<open>
  \<^verbatim>\<open>
  async function tryAskGet(endpoint, ask, timeoutMs) {
    try {
      const u = new URL(endpoint);
      u.searchParams.set("query", ask);
      const { res, ct, text } = await fetchText(u.toString(),
        { method: "GET", headers: { accept: "..." } }, timeoutMs);
      if (!res || !res.ok) return { ok: false };
      if (looksLikeHtml(ct, text)) return { ok: false };
      const cts = ct.toLowerCase();
      if (cts.includes("application/sparql-results+json") && looksLikeJsonAsk(text)) return { ok: true };
      if (cts.includes("application/sparql-results+xml") && looksLikeXmlAsk(text)) return { ok: true };
      if (looksLikeJsonAsk(text)) return { ok: true };
      if (looksLikeXmlAsk(text)) return { ok: true };
      return { ok: false };
    } catch { return { ok: false }; }
  }
  \<close>
  The result is the field \<^verbatim>\<open>ok\<close>.
\<close>

definition tryAskGet :: "platform \<Rightarrow> string \<Rightarrow> string \<Rightarrow> int \<Rightarrow> request list \<Rightarrow> bool \<times> request list" where
  "tryAskGet pf endpoint ask timeoutMs sent =
     (case URL_with_query pf endpoint ''query'' ask of
        None \<Rightarrow> (False, sent)
      | Some u \<Rightarrow>
          (let (f, sent') =
                 fetchText pf
                   \<lparr>rq_url = u, rq_method = GET, rq_accept = askAccept,
                    rq_content_type = None, rq_body = None, rq_timeoutMs = timeoutMs\<rparr> sent;
               ct = f_ct f; text = f_text f
           in if f_res f \<noteq> Some True then (False, sent')
              else if looksLikeHtml ct text then (False, sent')
              else
                (let cts = toLowerCase ct
                 in if includesStr cts ''application/sparql-results+json'' \<and>
                       looksLikeJsonAsk (JSON_parse pf) text then (True, sent')
                    else if includesStr cts ''application/sparql-results+xml'' \<and>
                       looksLikeXmlAsk text then (True, sent')
                    else if looksLikeJsonAsk (JSON_parse pf) text then (True, sent')
                    else if looksLikeXmlAsk text then (True, sent')
                    else (False, sent'))))"

text \<open>
  \<^verbatim>\<open>
  async function tryAskPost(endpoint, ask, timeoutMs) {
    const body = new URLSearchParams({ query: ask }).toString();
    const { res, ct, text } = await fetchText(endpoint,
      { method: "POST",
        headers: { "content-type": "application/x-www-form-urlencoded", accept: "..." },
        body }, timeoutMs);
    ... the same checks as in tryAskGet ...
  }
  \<close>
\<close>

definition tryAskPost :: "platform \<Rightarrow> string \<Rightarrow> string \<Rightarrow> int \<Rightarrow> request list \<Rightarrow> bool \<times> request list" where
  "tryAskPost pf endpoint ask timeoutMs sent =
     (let body = URLSearchParams_toString pf ''query'' ask;
          (f, sent') =
             fetchText pf
               \<lparr>rq_url = endpoint, rq_method = POST, rq_accept = askAccept,
                rq_content_type = Some ''application/x-www-form-urlencoded'',
                rq_body = Some body, rq_timeoutMs = timeoutMs\<rparr> sent;
          ct = f_ct f; text = f_text f
      in if f_res f \<noteq> Some True then (False, sent')
         else if looksLikeHtml ct text then (False, sent')
         else
           (let cts = toLowerCase ct
            in if includesStr cts ''application/sparql-results+json'' \<and>
                  looksLikeJsonAsk (JSON_parse pf) text then (True, sent')
               else if includesStr cts ''application/sparql-results+xml'' \<and>
                  looksLikeXmlAsk text then (True, sent')
               else if looksLikeJsonAsk (JSON_parse pf) text then (True, sent')
               else if looksLikeXmlAsk text then (True, sent')
               else (False, sent')))"

text \<open>
  \<^verbatim>\<open>
  async function tryServiceDescription(endpoint, timeoutMs) {
    const { res, ct, text } = await fetchText(endpoint,
      { method: "GET", headers: { accept: "..." } }, timeoutMs);
    if (!res || !res.ok) return { ok: false };
    if (!isRdfContentType(ct)) return { ok: false };
    if (looksLikeHtml(ct, text)) return { ok: false };
    if (!looksLikeServiceDescription(text)) return { ok: false };
    return { ok: true };
  }
  \<close>
\<close>

definition tryServiceDescription :: "platform \<Rightarrow> string \<Rightarrow> int \<Rightarrow> request list \<Rightarrow> bool \<times> request list" where
  "tryServiceDescription pf endpoint timeoutMs sent =
     (let (f, sent') =
             fetchText pf
               \<lparr>rq_url = endpoint, rq_method = GET, rq_accept = descriptionAccept,
                rq_content_type = None, rq_body = None, rq_timeoutMs = timeoutMs\<rparr> sent;
          ct = f_ct f; text = f_text f
      in if f_res f \<noteq> Some True then (False, sent')
         else if \<not> isRdfContentType ct then (False, sent')
         else if looksLikeHtml ct text then (False, sent')
         else if \<not> looksLikeServiceDescription text then (False, sent')
         else (True, sent'))"

subsection \<open>The prober\<close>

text \<open>
  \<^verbatim>\<open>
  async function validateSparqlEndpoint(endpoint, timeoutMs) {
    const ask = "ASK {}";
    const r1 = await tryAskGet(endpoint, ask, timeoutMs);
    if (r1.ok) return { ok: true, mode: "ask_get" };
    const r2 = await tryAskPost(endpoint, ask, timeoutMs);
    if (r2.ok) return { ok: true, mode: "ask_post" };
    const r3 = await tryServiceDescription(endpoint, timeoutMs);
    if (r3.ok) return { ok: true, mode: "service_description" };
    return { ok: false, mode: null };
  }
  \<close>
\<close>

definition validateSparqlEndpoint :: "platform \<Rightarrow> string \<Rightarrow> int \<Rightarrow> request list \<Rightarrow> ProbeOutcome \<times> request list" where
  "validateSparqlEndpoint pf endpoint timeoutMs sent =
     (let ask = ''ASK {}'';
          (r1, sent1) = tryAskGet pf endpoint ask timeoutMs sent
      in if r1 then (\<lparr>ok = True, mode = Some ask_get\<rparr>, sent1)
         else
           (let (r2, sent2) = tryAskPost pf endpoint ask timeoutMs sent1
            in if r2 then (\<lparr>ok = True, mode = Some ask_post\<rparr>, sent2)
               else
                 (let (r3, sent3) = tryServiceDescription pf endpoint timeoutMs sent2
                  in if r3 then (\<lparr>ok = True, mode = Some service_description\<rparr>, sent3)
                     else (\<lparr>ok = False, mode = None\<rparr>, sent3))))"


subsection \<open>The requests of the three strategies\<close>

text \<open>The three requests by name, as the strategies above build them, to state what the
  prober sends.\<close>

definition askGetRequest :: "string \<Rightarrow> int \<Rightarrow> request" where
  "askGetRequest u timeoutMs =
     \<lparr>rq_url = u, rq_method = GET, rq_accept = askAccept,
      rq_content_type = None, rq_body = None, rq_timeoutMs = timeoutMs\<rparr>"

definition askPostRequest :: "platform \<Rightarrow> string \<Rightarrow> int \<Rightarrow> request" where
  "askPostRequest pf endpoint timeoutMs =
     \<lparr>rq_url = endpoint, rq_method = POST, rq_accept = askAccept,
      rq_content_type = Some ''application/x-www-form-urlencoded'',
      rq_body = Some (URLSearchParams_toString pf ''query'' ''ASK {}''), rq_timeoutMs = timeoutMs\<rparr>"

definition descriptionRequest :: "string \<Rightarrow> int \<Rightarrow> request" where
  "descriptionRequest endpoint timeoutMs =
     \<lparr>rq_url = endpoint, rq_method = GET, rq_accept = descriptionAccept,
      rq_content_type = None, rq_body = None, rq_timeoutMs = timeoutMs\<rparr>"

section \<open>The shape of an XML boolean acknowledgment\<close>

text \<open>
  What the specification says of the XML check, written out: somewhere in the text there
  is an opening tag \<^verbatim>\<open><sparql\<close> \<open>\<dots>\<close> \<^verbatim>\<open>>\<close>, later the element
  \<^verbatim>\<open><boolean>true</boolean>\<close> or \<^verbatim>\<open><boolean>false</boolean>\<close>, and later still the closing
  tag \<^verbatim>\<open></sparql>\<close>, all up to case. The opening tag may carry attributes: any code units
  but \<^verbatim>\<open>>\<close>, not beginning with a word character, so that the tag name ends after
  \<^verbatim>\<open>sparql\<close>. This definition is independent of the matcher; it is compared with
  \<^verbatim>\<open>looksLikeXmlAsk\<close> below.
\<close>


definition ci_eq :: "string \<Rightarrow> string \<Rightarrow> bool" where
  "ci_eq a b = (map canonicalize a = map canonicalize b)"

definition sparql_boolean_shaped :: "string \<Rightarrow> bool" where
  "sparql_boolean_shaped t =
     (\<exists>pre tag attrs mid opn word cls mid' fin post.
        t = pre @ tag @ attrs @ ''>'' @ mid @ opn @ word @ cls @ mid' @ fin @ post \<and>
        ci_eq tag ''<sparql'' \<and>
        CHR ''>'' \<notin> set attrs \<and> (attrs = [] \<or> \<not> is_word (hd attrs)) \<and>
        ci_eq opn ''<boolean>'' \<and>
        (ci_eq word ''true'' \<or> ci_eq word ''false'') \<and>
        ci_eq cls ''</boolean>'' \<and>
        ci_eq fin ''</sparql>'')"

text \<open>The body of the specification's end-to-end scenario.\<close>

definition xml_ack_body :: string where
  "xml_ack_body = ''<sparql><results><boolean>true</boolean></results></sparql>''"

section \<open>Verification engine\<close>

subsection \<open>Tasks and the explicit-URL sets\<close>

text \<open>
  \<^verbatim>\<open>
  for (let i = 0; i < items.length; i++) {
    const expSet = new Set(items[i].sparqlCandidates
                     .filter((c) => c.source === "explicit").map((c) => c.url));
    explicitByPortal.set(i, expSet);
    for (const c of items[i].sparqlCandidates)
      tasks.push({ portalIndex: i, url: c.url, source: c.source });
  }
  \<close>
\<close>

record task =
  portalIndex :: nat
  t_url :: string
  t_source :: source

definition portalTasks :: "nat \<Rightarrow> candidate list \<Rightarrow> task list" where
  "portalTasks i cs = map (\<lambda>c. \<lparr>portalIndex = i, t_url = c_url c, t_source = c_source c\<rparr>) cs"

definition buildTasks :: "'r prepared list \<Rightarrow> task list" where
  "buildTasks items =
     concat (map (\<lambda>i. portalTasks i (sparqlCandidates (items ! i))) [0..<length items])"

text \<open>The map \<^verbatim>\<open>explicitByPortal\<close> has one key per index below \<^verbatim>\<open>items.length\<close>; it
  is the list of its values.\<close>

definition explicitByPortal :: "'r prepared list \<Rightarrow> string set list" where
  "explicitByPortal items =
     map (\<lambda>p. set (map c_url (filter (\<lambda>c. c_source c = Explicit) (sparqlCandidates p)))) items"

subsection \<open>The per-portal verified map\<close>

text \<open>
  A JavaScript \<^verbatim>\<open>Map\<close> iterates in insertion order, and the final loop reads
  \<^verbatim>\<open>Array.from(verifiedMap.get(i).values())\<close>, so each inner map is an association list in
  insertion order. \<^verbatim>\<open>set\<close> on a present key replaces the value in place, on an absent key
  it appends.
\<close>

definition Map_has :: "('k \<times> 'v) list \<Rightarrow> 'k \<Rightarrow> bool" where
  "Map_has m k = (k \<in> set (map fst m))"

fun Map_set :: "('k \<times> 'v) list \<Rightarrow> 'k \<Rightarrow> 'v \<Rightarrow> ('k \<times> 'v) list" where
  "Map_set [] k v = [(k, v)]"
| "Map_set (p # ps) k v = (if fst p = k then (k, v) # ps else p # Map_set ps k v)"

definition Map_values :: "('k \<times> 'v) list \<Rightarrow> 'v list" where
  "Map_values m = map snd m"

subsection \<open>The worker pool\<close>

text \<open>
  The workers are \<^verbatim>\<open>async\<close> functions on one thread: a worker runs without interruption
  from one \<^verbatim>\<open>await\<close> to the next, and the only \<^verbatim>\<open>await\<close> of its loop is the probe
  \<^verbatim>\<open>await validateSparqlEndpoint(t.url, timeoutMs)\<close>. The state of the pool between two
  such steps is the shared \<^verbatim>\<open>cursor\<close>, the shared \<^verbatim>\<open>verifiedMap\<close> (one inner map per
  portal index) and, for every worker, the locals \<^verbatim>\<open>myIndex\<close> and \<^verbatim>\<open>t\<close> of the probe it
  is waiting for (\<^term>\<open>None\<close> once the worker has left its loop). The field \<open>claimed\<close>
  is a history of the program: it lists, in the order of execution, which worker obtained
  which index from \<^verbatim>\<open>cursor++\<close> and went on to fetch that task. The call
  \<^verbatim>\<open>progress.tick()\<close> at the end of the loop body touches none of this and is left out.
\<close>

record pool =
  cursor :: nat
  verifiedMap :: "(string \<times> verified) list list"
  runners :: "(nat \<times> task) option list"
  claimed :: "(nat \<times> nat) list"

text \<open>A rejected promise: an exception thrown by the probe, the \<^verbatim>\<open>TypeError\<close> of a
  method call on \<^verbatim>\<open>undefined\<close>, or the \<^verbatim>\<open>RangeError\<close> of an array length that is
  too large.\<close>

datatype fault = ProbeFault | TypeError | RangeError

text \<open>
  The head of the worker's loop, up to the \<^verbatim>\<open>await\<close>:
  \<^verbatim>\<open>
  const myIndex = cursor++;
  if (myIndex >= tasks.length) break;
  const t = tasks[myIndex];
  \<close>
\<close>

definition claim :: "task list \<Rightarrow> nat \<Rightarrow> pool \<Rightarrow> pool" where
  "claim tasks w s =
     (let myIndex = cursor s; s1 = s\<lparr>cursor := myIndex + 1\<rparr>
      in if myIndex \<ge> length tasks then s1\<lparr>runners := (runners s1)[w := None]\<rparr>
         else s1\<lparr>runners := (runners s1)[w := Some (myIndex, tasks ! myIndex)],
                 claimed := claimed s1 @ [(w, myIndex)]\<rparr>)"

text \<open>
  What follows the \<^verbatim>\<open>await\<close> once the probe has returned \<^verbatim>\<open>res\<close>:
  \<^verbatim>\<open>
  if (res.ok) {
    const m = verifiedMap.get(t.portalIndex);
    if (!m.has(t.url)) m.set(t.url, { url: t.url, source: t.source, mode: res.mode });
  }
  \<close>
  \<^verbatim>\<open>verifiedMap.get\<close> of an index that was never set is \<^verbatim>\<open>undefined\<close>, and \<^verbatim>\<open>m.has\<close>
  then throws.
\<close>

definition settle :: "task \<Rightarrow> ProbeOutcome \<Rightarrow> pool \<Rightarrow> fault + pool" where
  "settle t res s =
     (if ok res then
        (if portalIndex t < length (verifiedMap s) then
           (let m = verifiedMap s ! portalIndex t
            in if \<not> Map_has m (t_url t)
               then Inr (s\<lparr>verifiedMap := (verifiedMap s)[portalIndex t :=
                          Map_set m (t_url t)
                            \<lparr>v_url = t_url t, v_source = t_source t, v_mode = mode res\<rparr>]\<rparr>)
               else Inr s)
         else Inl TypeError)
      else Inr s)"

text \<open>
  One step of the pool: the probe of worker \<open>w\<close> completes, the worker records the result
  and runs on to its next \<^verbatim>\<open>await\<close> or to the \<^verbatim>\<open>break\<close>. The probe is a parameter: it
  assigns to every task either an outcome or an exception. The worker has no
  \<^verbatim>\<open>try\<close>, so an exception leaves the worker's promise rejected. A worker that has
  left its loop is never resumed; such a step changes nothing.
\<close>

definition resume :: "(task \<Rightarrow> fault + ProbeOutcome) \<Rightarrow> task list \<Rightarrow> nat \<Rightarrow> pool \<Rightarrow> fault + pool" where
  "resume probe tasks w s =
     (if w < length (runners s) then
        (case runners s ! w of
           None \<Rightarrow> Inr s
         | Some (myIndex, t) \<Rightarrow>
             (case probe t of
                Inl e \<Rightarrow> Inl e
              | Inr res \<Rightarrow>
                  (case settle t res s of
                     Inl e \<Rightarrow> Inl e
                   | Inr s' \<Rightarrow> Inr (claim tasks w s'))))
      else Inr s)"

text \<open>A completion order is the list of the workers whose probes complete, one after the
  other.\<close>

fun run :: "(task \<Rightarrow> fault + ProbeOutcome) \<Rightarrow> task list \<Rightarrow> nat list \<Rightarrow> pool \<Rightarrow> fault + pool" where
  "run probe tasks [] s = Inr s"
| "run probe tasks (w # ws) s =
     (case resume probe tasks w s of Inl e \<Rightarrow> Inl e | Inr s' \<Rightarrow> run probe tasks ws s')"

subsection \<open>The number of workers\<close>

text \<open>
  \<^verbatim>\<open>
  const concurrency = Number(getArgValue(args, "--concurrency") ?? 10);
  \<close>
  \<^verbatim>\<open>Number\<close> of a command-line word is a finite number, \<^verbatim>\<open>NaN\<close> (for a word that is no
  numeral, such as the next option when the value is missing), \<^verbatim>\<open>Infinity\<close> or
  \<^verbatim>\<open>-Infinity\<close>. A finite number is given by its integer part: the only use of the
  value is \<^verbatim>\<open>Array.from({ length: Math.max(1, concurrency) }, ...)\<close>, which reads the length
  with \<^verbatim>\<open>ToLength\<close>, and the integer part of the larger of 1 and \<open>x\<close> is the larger of 1
  and the integer part of \<open>x\<close>.
\<close>

datatype number = Finite int | NaN | PosInfinity | NegInfinity

text \<open>\<^verbatim>\<open>Math.max(a, x)\<close> for an integer \<open>a\<close>: \<^verbatim>\<open>NaN\<close> when \<open>x\<close> is \<^verbatim>\<open>NaN\<close>.\<close>

definition Math_max :: "int \<Rightarrow> number \<Rightarrow> number" where
  "Math_max a x =
     (case x of
        Finite b \<Rightarrow> Finite (max a b)
      | NaN \<Rightarrow> NaN
      | PosInfinity \<Rightarrow> PosInfinity
      | NegInfinity \<Rightarrow> Finite a)"

text \<open>\<^verbatim>\<open>ToLength\<close>: \<^verbatim>\<open>NaN\<close> becomes 0, and the result lies between 0 and 9007199254740991.\<close>

definition ToLength :: "number \<Rightarrow> int" where
  "ToLength x =
     (case x of
        Finite b \<Rightarrow> min (max 0 b) 9007199254740991
      | NaN \<Rightarrow> 0
      | PosInfinity \<Rightarrow> 9007199254740991
      | NegInfinity \<Rightarrow> 0)"

text \<open>
  \<^verbatim>\<open>Array.from\<close> of an object with only a \<^verbatim>\<open>length\<close> creates the array with
  \<^verbatim>\<open>new Array(len)\<close> before it calls the mapping function, and this throws a
  \<^verbatim>\<open>RangeError\<close> when \<open>len\<close> is above 4294967295. Otherwise the mapping function
  \<^verbatim>\<open>() => worker()\<close> is called \<open>len\<close> times: \<open>runnerCount\<close> is the number of workers.
  The memory that a very long array of workers takes is not part of the model.
\<close>

definition runnerCount :: "number \<Rightarrow> fault + nat" where
  "runnerCount concurrency =
     (let len = ToLength (Math_max 1 concurrency)
      in if len > 4294967295 then Inl RangeError else Inr (nat len))"

subsection \<open>The start of the pool\<close>

text \<open>
  \<^verbatim>\<open>
  const verifiedMap = new Map();
  for (let i = 0; i < items.length; i++) verifiedMap.set(i, new Map());
  let cursor = 0;
  const runners = Array.from({ length: Math.max(1, concurrency) }, () => worker());
  \<close>
  Every call \<^verbatim>\<open>worker()\<close> runs at once up to its first \<^verbatim>\<open>await\<close>; \<open>n\<close> is the number
  of these calls.
\<close>

definition launch :: "task list \<Rightarrow> nat \<Rightarrow> nat \<Rightarrow> pool" where
  "launch tasks nitems n =
     fold (claim tasks) [0..<n]
       \<lparr>cursor = 0, verifiedMap = replicate nitems [], runners = replicate n None,
        claimed = []\<rparr>"

definition finished :: "pool \<Rightarrow> bool" where
  "finished s = list_all (\<lambda>r. r = None) (runners s)"

subsection \<open>Result rows\<close>

text \<open>
  The row pushed for a portal. \<open>r_portal\<close> stands for the attributes that
  \<^verbatim>\<open>projectOutput(items[i])\<close> copies from the raw portal object; \<open>sparqlEndpoint\<close> is a
  field that may hold \<^verbatim>\<open>null\<close> in the output document.
\<close>

record 'r row =
  r_portal :: 'r
  sparqlEndpoint :: "string option"
  sparqlGuessed :: bool
  sparqlVerified :: bool
  sparqlVerifiedBy :: "mode option"
  sparqlEndpointsVerified :: "string list"
  sparqlEndpointsVerifiedMeta :: "verified list"

text \<open>
  The body of the final loop:
  \<^verbatim>\<open>
  const verified = Array.from(verifiedMap.get(i).values());
  if (verified.length === 0) continue;
  const expSet = explicitByPortal.get(i) ?? new Set();
  const hasExplicitAny = expSet.size > 0;
  if (strict && !hasExplicitAny) continue;
  const chosen = verified.find((v) => v.source === "explicit") ?? verified[0];
  out.push({ ...projectOutput(items[i]), sparqlEndpoint: chosen.url, ... });
  \<close>
  \<^term>\<open>None\<close> is \<^verbatim>\<open>continue\<close>.
\<close>

definition outputRow :: "bool \<Rightarrow> 'r prepared \<Rightarrow> string set \<Rightarrow> (string \<times> verified) list \<Rightarrow> 'r row option" where
  "outputRow strict item expSet m =
     (case Map_values m of
        [] \<Rightarrow> None
      | v0 # rest \<Rightarrow>
          (let verified = v0 # rest;
               hasExplicitAny = (expSet \<noteq> {})
           in if strict \<and> \<not> hasExplicitAny then None
              else
                (let chosen = (case find (\<lambda>v. v_source v = Explicit) verified of
                                 Some exp \<Rightarrow> exp | None \<Rightarrow> v0)
                 in Some \<lparr>r_portal = raw item,
                          sparqlEndpoint = Some (v_url chosen),
                          sparqlGuessed = (v_source chosen \<noteq> Explicit),
                          sparqlVerified = True,
                          sparqlVerifiedBy = v_mode chosen,
                          sparqlEndpointsVerified = map v_url verified,
                          sparqlEndpointsVerifiedMeta = verified\<rparr>)))"

definition assemble :: "bool \<Rightarrow> 'r prepared list \<Rightarrow> (string \<times> verified) list list \<Rightarrow> 'r row list" where
  "assemble strict items vm =
     List.map_filter
       (\<lambda>i. outputRow strict (items ! i) (explicitByPortal items ! i) (vm ! i))
       [0..<length items]"

subsection \<open>The engine\<close>

text \<open>
  The array of workers is created after the tasks and the maps; a \<^verbatim>\<open>RangeError\<close> there
  rejects the engine before any worker runs. \<^verbatim>\<open>await Promise.all(runners)\<close> is rejected
  as soon as one worker is rejected, and the engine with it; it is fulfilled when every
  worker has left its loop (at once when there is no worker), and the rows are assembled
  then. After a completion order that leaves a worker waiting the promise is still
  pending. The script awaits the engine at top level without a handler, so a rejection
  ends the script: the pool is followed up to the first exception and no further.
\<close>

datatype 'a promise = Pending | Rejected fault | Resolved 'a

definition verifyCandidatesByCandidate ::
  "(task \<Rightarrow> fault + ProbeOutcome) \<Rightarrow> 'r prepared list \<Rightarrow> number \<Rightarrow> bool \<Rightarrow> nat list \<Rightarrow> 'r row list promise" where
  "verifyCandidatesByCandidate probe items concurrency strict order =
     (let tasks = buildTasks items
      in case runnerCount concurrency of
           Inl e \<Rightarrow> Rejected e
         | Inr n \<Rightarrow>
             (case run probe tasks order (launch tasks (length items) n) of
                Inl e \<Rightarrow> Rejected e
              | Inr s \<Rightarrow>
                  if finished s then Resolved (assemble strict items (verifiedMap s))
                  else Pending))"

section \<open>Derivation-only mode\<close>

text \<open>
  The branch of the script without \<^verbatim>\<open>--check\<close>:
  \<^verbatim>\<open>
  for (const p of prepared) {
    if (p.sparqlCandidates.length === 0) { filterProgress.tick(); continue; }
    const hasExplicit = p.sparqlCandidates.some((c) => c.source === "explicit");
    if (strict && !hasExplicit) { filterProgress.tick(); continue; }
    const chosen = choosePreferred(p.sparqlCandidates);
    out.push({ ...projectOutput(p),
      sparqlEndpoint: chosen?.url ?? null,
      sparqlGuessed: chosen ? chosen.source !== "explicit" : null,
      sparqlCandidates: p.sparqlCandidates });
    filterProgress.tick();
  }
  \<close>
\<close>

record 'r derived_row =
  d_portal :: 'r
  d_sparqlEndpoint :: "string option"
  d_sparqlGuessed :: "bool option"
  d_sparqlCandidates :: "candidate list"

definition derivedRow :: "bool \<Rightarrow> 'r prepared \<Rightarrow> 'r derived_row option" where
  "derivedRow strict p =
     (if length (sparqlCandidates p) = 0 then None
      else
        (let hasExplicit = list_ex (\<lambda>c. c_source c = Explicit) (sparqlCandidates p)
         in if strict \<and> \<not> hasExplicit then None
            else
              (let chosen = choosePreferred (sparqlCandidates p)
               in Some \<lparr>d_portal = raw p,
                        d_sparqlEndpoint = (case chosen of None \<Rightarrow> None | Some c \<Rightarrow> Some (c_url c)),
                        d_sparqlGuessed =
                          (case chosen of None \<Rightarrow> None | Some c \<Rightarrow> Some (c_source c \<noteq> Explicit)),
                        d_sparqlCandidates = sparqlCandidates p\<rparr>)))"

definition deriveOnly :: "bool \<Rightarrow> 'r prepared list \<Rightarrow> 'r derived_row list" where
  "deriveOnly strict prepared = List.map_filter (derivedRow strict) prepared"


section \<open>Invariants of the worker pool\<close>

text \<open>
  The predicates below describe the pool states that the engine can reach; they are used
  in the proofs only. \<open>keyedByUrl\<close>: an inner map has one entry per key and files every
  entry under its own URL. \<open>held\<close>: the task indices some worker is waiting on.
  \<open>launched\<close>: the pool after the first \<open>k\<close> of \<open>W\<close> calls \<^verbatim>\<open>worker()\<close>.
  \<open>remaining\<close>: the number of worker steps still to come.
\<close>

definition keyedByUrl :: "(string \<times> verified) list \<Rightarrow> bool" where
  "keyedByUrl m = (distinct (map fst m) \<and> (\<forall>(k, v)\<in>set m. v_url v = k))"

definition held :: "pool \<Rightarrow> nat set" where
  "held s = {j. \<exists>w t. w < length (runners s) \<and> runners s ! w = Some (j, t)}"

definition pool_inv :: "task list \<Rightarrow> nat \<Rightarrow> nat \<Rightarrow> pool \<Rightarrow> bool" where
  "pool_inv tasks n W s \<longleftrightarrow>
     length (verifiedMap s) = n \<and>
     length (runners s) = W \<and>
     map snd (claimed s) = [0..<min (cursor s) (length tasks)] \<and>
     (\<forall>(w, j)\<in>set (claimed s). w < W) \<and>
     (\<forall>w j t. w < W \<and> runners s ! w = Some (j, t) \<longrightarrow>
        j < cursor s \<and> j < length tasks \<and> t = tasks ! j) \<and>
     (\<forall>w w' j t t'. w < W \<and> w' < W \<and> runners s ! w = Some (j, t) \<and>
        runners s ! w' = Some (j, t') \<longrightarrow> w = w') \<and>
     (cursor s < length tasks \<longrightarrow> (\<forall>w<W. runners s ! w \<noteq> None)) \<and>
     (\<forall>m\<in>set (verifiedMap s). keyedByUrl m)"

definition launched :: "task list \<Rightarrow> nat \<Rightarrow> nat \<Rightarrow> nat \<Rightarrow> pool" where
  "launched tasks nitems W k =
     \<lparr>cursor = k, verifiedMap = replicate nitems [],
      runners = map (\<lambda>i. if i < k \<and> i < length tasks then Some (i, tasks ! i) else None) [0..<W],
      claimed = map (\<lambda>i. (i, i)) [0..<min k (length tasks)]\<rparr>"


text \<open>
  For the comparison of two executions. \<open>entryOf\<close>: the map entry a successful task
  leaves behind. \<open>settled\<close>: the claimed indices whose probes have completed.
  \<open>expected\<close>: the entries that the successful tasks of a set of indices leave in the
  map of a portal. \<open>same_url_same_task\<close>: two tasks of one portal with one URL are the
  same task. \<open>same_row\<close>: two rows agree in everything but the order of the verified
  list, and in the chosen endpoint too when the verified list leaves no choice.
\<close>

definition entryOf :: "(task \<Rightarrow> ProbeOutcome) \<Rightarrow> task \<Rightarrow> string \<times> verified" where
  "entryOf p t = (t_url t, \<lparr>v_url = t_url t, v_source = t_source t, v_mode = mode (p t)\<rparr>)"

definition settled :: "task list \<Rightarrow> pool \<Rightarrow> nat set" where
  "settled tasks s = {j. j < cursor s \<and> j < length tasks \<and> j \<notin> held s}"

definition expected :: "(task \<Rightarrow> ProbeOutcome) \<Rightarrow> task list \<Rightarrow> nat set \<Rightarrow> nat \<Rightarrow> (string \<times> verified) set" where
  "expected p tasks J i =
     (\<lambda>j. entryOf p (tasks ! j)) ` {j \<in> J. portalIndex (tasks ! j) = i \<and> ok (p (tasks ! j))}"

definition verified_inv :: "(task \<Rightarrow> ProbeOutcome) \<Rightarrow> task list \<Rightarrow> pool \<Rightarrow> bool" where
  "verified_inv p tasks s \<longleftrightarrow>
     (\<forall>i<length (verifiedMap s). set (verifiedMap s ! i) = expected p tasks (settled tasks s) i)"

definition same_url_same_task :: "task list \<Rightarrow> bool" where
  "same_url_same_task tasks \<longleftrightarrow>
     (\<forall>a<length tasks. \<forall>b<length tasks.
        portalIndex (tasks ! a) = portalIndex (tasks ! b) \<and> t_url (tasks ! a) = t_url (tasks ! b)
        \<longrightarrow> tasks ! a = tasks ! b)"

definition same_row :: "'r row \<Rightarrow> 'r row \<Rightarrow> bool" where
  "same_row r1 r2 \<longleftrightarrow>
     r_portal r1 = r_portal r2 \<and>
     set (sparqlEndpointsVerifiedMeta r1) = set (sparqlEndpointsVerifiedMeta r2) \<and>
     set (sparqlEndpointsVerified r1) = set (sparqlEndpointsVerified r2) \<and>
     sparqlVerified r1 = sparqlVerified r2 \<and>
     sparqlGuessed r1 = sparqlGuessed r2 \<and>
     (length (filter (\<lambda>v. v_source v = Explicit) (sparqlEndpointsVerifiedMeta r1)) = 1 \<or>
      length (sparqlEndpointsVerifiedMeta r1) = 1 \<longrightarrow>
        sparqlEndpoint r1 = sparqlEndpoint r2 \<and> sparqlVerifiedBy r1 = sparqlVerifiedBy r2)"

text \<open>For the proof about the regular expression: the part of the pattern after the
  opening tag, and the shape of the text it matches.\<close>

definition tailPattern :: "item list" where
  "tailPattern =
     Star AnyUnit # (chars ''<boolean>'' @ Words [''true'', ''false''] #
       (chars ''</boolean>'' @ Star AnyUnit # (chars ''</sparql>'' @ [])))"

definition tail_shaped :: "string \<Rightarrow> bool" where
  "tail_shaped s =
     (\<exists>mid opn word cls mid' fin post.
        s = mid @ opn @ word @ cls @ mid' @ fin @ post \<and>
        ci_eq opn ''<boolean>'' \<and>
        (ci_eq word ''true'' \<or> ci_eq word ''false'') \<and>
        ci_eq cls ''</boolean>'' \<and>
        ci_eq fin ''</sparql>'')"

section \<open>Example inputs\<close>

text \<open>Concrete portals and probe assignments on which the theorems are instantiated.\<close>


definition two_guessed :: "nat prepared list" where
  "two_guessed =
     [\<lparr>raw = 0, sparqlCandidates =
         [\<lparr>c_url = ''https://x.org/sparql'', c_source = Guessed\<rparr>,
          \<lparr>c_url = ''https://x.org/query'', c_source = Guessed\<rparr>]\<rparr>]"

definition always_ask_get :: "task \<Rightarrow> fault + ProbeOutcome" where
  "always_ask_get t = Inr \<lparr>ok = True, mode = Some ask_get\<rparr>"

definition mixed_portals :: "nat prepared list" where
  "mixed_portals =
     [\<lparr>raw = 0, sparqlCandidates =
         [\<lparr>c_url = ''https://a.org/sparql'', c_source = Explicit\<rparr>,
          \<lparr>c_url = ''https://a.org/query'', c_source = Guessed\<rparr>]\<rparr>,
      \<lparr>raw = 1, sparqlCandidates =
         [\<lparr>c_url = ''https://b.org/sparql'', c_source = Guessed\<rparr>]\<rparr>]"

definition guessed_by_post :: "task \<Rightarrow> fault + ProbeOutcome" where
  "guessed_by_post t =
     (if t_source t = Guessed then Inr \<lparr>ok = True, mode = Some ask_post\<rparr>
      else Inr \<lparr>ok = False, mode = None\<rparr>)"

definition one_explicit_two_guessed :: "nat prepared list" where
  "one_explicit_two_guessed =
     [\<lparr>raw = 0, sparqlCandidates =
         [\<lparr>c_url = ''https://x.org/sparql'', c_source = Explicit\<rparr>,
          \<lparr>c_url = ''https://x.org/query'', c_source = Guessed\<rparr>,
          \<lparr>c_url = ''https://x.org/api/sparql'', c_source = Guessed\<rparr>]\<rparr>]"

definition query_throws :: "task \<Rightarrow> fault + ProbeOutcome" where
  "query_throws t =
     (if t_url t = ''https://x.org/query'' then Inl ProbeFault
      else Inr \<lparr>ok = True, mode = Some ask_get\<rparr>)"


definition boolean_true_body :: string where
  "boolean_true_body = ''{\"boolean\": true}''"

definition example_JSON_parse :: "string \<Rightarrow> json option" where
  "example_JSON_parse text =
     (if text = boolean_true_body then Some (JObject [(''boolean'', JBoolean True)]) else None)"

definition html_wall :: platform where
  "html_wall =
     \<lparr>fetch = (\<lambda>sent rq. Some \<lparr>rs_ok = True, rs_content_type = Some ''text/html; charset=utf-8'',
                                  rs_text = Some boolean_true_body\<rparr>),
      JSON_parse = example_JSON_parse,
      URL_with_query = (\<lambda>endpoint name v. Some (endpoint @ ''?query=ASK+%7B%7D'')),
      URLSearchParams_toString = (\<lambda>name v. ''query=ASK+%7B%7D'')\<rparr>"

definition post_only :: platform where
  "post_only =
     \<lparr>fetch = (\<lambda>sent rq.
        if rq_method rq = POST
        then Some \<lparr>rs_ok = True, rs_content_type = Some ''application/sparql-results+json'',
                   rs_text = Some boolean_true_body\<rparr>
        else Some \<lparr>rs_ok = False, rs_content_type = Some ''text/plain'',
                   rs_text = Some ''Method Not Allowed''\<rparr>),
      JSON_parse = example_JSON_parse,
      URL_with_query = (\<lambda>endpoint name v. Some (endpoint @ ''?query=ASK+%7B%7D'')),
      URLSearchParams_toString = (\<lambda>name v. ''query=ASK+%7B%7D'')\<rparr>"

definition xml_ack :: platform where
  "xml_ack =
     \<lparr>fetch = (\<lambda>sent rq. Some \<lparr>rs_ok = True,
                                  rs_content_type = Some ''application/sparql-results+xml'',
                                  rs_text = Some xml_ack_body\<rparr>),
      JSON_parse = example_JSON_parse,
      URL_with_query = (\<lambda>endpoint name v. Some (endpoint @ ''?query=ASK+%7B%7D'')),
      URLSearchParams_toString = (\<lambda>name v. ''query=ASK+%7B%7D'')\<rparr>"

definition xml_ack_in_html :: platform where
  "xml_ack_in_html =
     \<lparr>fetch = (\<lambda>sent rq. Some \<lparr>rs_ok = True,
                                  rs_content_type = Some ''application/sparql-results+xml'',
                                  rs_text = Some (''<html>'' @ xml_ack_body)\<rparr>),
      JSON_parse = example_JSON_parse,
      URL_with_query = (\<lambda>endpoint name v. Some (endpoint @ ''?query=ASK+%7B%7D'')),
      URLSearchParams_toString = (\<lambda>name v. ''query=ASK+%7B%7D'')\<rparr>"

section \<open>Properties of the selection policy\<close>

lemma find_first_split:
  "find P xs = Some x \<Longrightarrow> \<exists>pre post. xs = pre @ x # post \<and> P x \<and> (\<forall>y\<in>set pre. \<not> P y)"
proof (induction xs)
  case Nil
  then show ?case by simp
next
  case (Cons a xs)
  show ?case
  proof (cases "P a")
    case True
    with Cons.prems have "a = x" by simp
    with True have "a # xs = [] @ x # xs \<and> P x \<and> (\<forall>y\<in>set []. \<not> P y)" by simp
    then show ?thesis by blast
  next
    case False
    with Cons.prems have "find P xs = Some x" by simp
    from Cons.IH[OF this] obtain pre post
      where "xs = pre @ x # post" "P x" "\<forall>y\<in>set pre. \<not> P y" by blast
    with False have "a # xs = (a # pre) @ x # post \<and> P x \<and> (\<forall>y\<in>set (a # pre). \<not> P y)"
      by simp
    then show ?thesis by blast
  qed
qed

lemma find_exists_Some: "\<exists>x\<in>set xs. P x \<Longrightarrow> \<exists>y. find P xs = Some y"
  by (cases "find P xs") (auto simp: find_None_iff)

text \<open>
  C6. Both selections return nothing exactly on the empty list; when the list holds an
  explicit entry they return the first explicit entry in list order; otherwise they
  return the first entry.
\<close>

theorem choosePreferred_selection:
  "(choosePreferred cs = None \<longleftrightarrow> cs = []) \<and>
   ((\<exists>c\<in>set cs. c_source c = Explicit) \<longrightarrow>
      (\<exists>pre e post. cs = pre @ e # post \<and> c_source e = Explicit \<and>
         (\<forall>x\<in>set pre. c_source x \<noteq> Explicit) \<and> choosePreferred cs = Some e)) \<and>
   (cs \<noteq> [] \<and> (\<forall>c\<in>set cs. c_source c \<noteq> Explicit) \<longrightarrow> choosePreferred cs = Some (hd cs)) \<and>
   (chosenVerified vs = None \<longleftrightarrow> vs = []) \<and>
   ((\<exists>v\<in>set vs. v_source v = Explicit) \<longrightarrow>
      (\<exists>pre e post. vs = pre @ e # post \<and> v_source e = Explicit \<and>
         (\<forall>x\<in>set pre. v_source x \<noteq> Explicit) \<and> chosenVerified vs = Some e)) \<and>
   (vs \<noteq> [] \<and> (\<forall>v\<in>set vs. v_source v \<noteq> Explicit) \<longrightarrow> chosenVerified vs = Some (hd vs))"
proof (intro conjI impI)
  show "choosePreferred cs = None \<longleftrightarrow> cs = []"
    by (auto simp: choosePreferred_def split: option.splits list.splits)
next
  assume "\<exists>c\<in>set cs. c_source c = Explicit"
  then obtain e where e: "find (\<lambda>c. c_source c = Explicit) cs = Some e"
    using find_exists_Some[of cs "\<lambda>c. c_source c = Explicit"] by blast
  from find_first_split[OF e] obtain pre post
    where "cs = pre @ e # post" "c_source e = Explicit" "\<forall>y\<in>set pre. c_source y \<noteq> Explicit"
    by blast
  moreover from e have "choosePreferred cs = Some e"
    by (simp add: choosePreferred_def)
  ultimately show "\<exists>pre e post. cs = pre @ e # post \<and> c_source e = Explicit \<and>
         (\<forall>x\<in>set pre. c_source x \<noteq> Explicit) \<and> choosePreferred cs = Some e"
    by blast
next
  assume "cs \<noteq> [] \<and> (\<forall>c\<in>set cs. c_source c \<noteq> Explicit)"
  then have "find (\<lambda>c. c_source c = Explicit) cs = None" and "cs \<noteq> []"
    by (auto simp: find_None_iff)
  then show "choosePreferred cs = Some (hd cs)"
    by (cases cs) (simp_all add: choosePreferred_def)
next
  show "chosenVerified vs = None \<longleftrightarrow> vs = []"
    by (auto simp: chosenVerified_def split: option.splits list.splits)
next
  assume "\<exists>v\<in>set vs. v_source v = Explicit"
  then obtain e where e: "find (\<lambda>v. v_source v = Explicit) vs = Some e"
    using find_exists_Some[of vs "\<lambda>v. v_source v = Explicit"] by blast
  from find_first_split[OF e] obtain pre post
    where "vs = pre @ e # post" "v_source e = Explicit" "\<forall>y\<in>set pre. v_source y \<noteq> Explicit"
    by blast
  moreover from e have "chosenVerified vs = Some e"
    by (simp add: chosenVerified_def)
  ultimately show "\<exists>pre e post. vs = pre @ e # post \<and> v_source e = Explicit \<and>
         (\<forall>x\<in>set pre. v_source x \<noteq> Explicit) \<and> chosenVerified vs = Some e"
    by blast
next
  assume "vs \<noteq> [] \<and> (\<forall>v\<in>set vs. v_source v \<noteq> Explicit)"
  then have "find (\<lambda>v. v_source v = Explicit) vs = None" and "vs \<noteq> []"
    by (auto simp: find_None_iff)
  then show "chosenVerified vs = Some (hd vs)"
    by (cases vs) (simp_all add: chosenVerified_def)
qed

theorem choosePreferred_selection_witness:
  "choosePreferred [\<lparr>c_url = ''https://x.org/query'', c_source = Guessed\<rparr>,
                    \<lparr>c_url = ''https://x.org/sparql'', c_source = Explicit\<rparr>]
     = Some \<lparr>c_url = ''https://x.org/sparql'', c_source = Explicit\<rparr> \<and>
   chosenVerified [\<lparr>v_url = ''https://x.org/query'', v_source = Guessed, v_mode = Some ask_post\<rparr>,
                   \<lparr>v_url = ''https://x.org/api'', v_source = Guessed, v_mode = Some ask_get\<rparr>]
     = Some \<lparr>v_url = ''https://x.org/query'', v_source = Guessed, v_mode = Some ask_post\<rparr>"
proof -
  let ?cs = "[\<lparr>c_url = ''https://x.org/query'', c_source = Guessed\<rparr>,
              \<lparr>c_url = ''https://x.org/sparql'', c_source = Explicit\<rparr>]"
  let ?vs = "[\<lparr>v_url = ''https://x.org/query'', v_source = Guessed, v_mode = Some ask_post\<rparr>,
              \<lparr>v_url = ''https://x.org/api'', v_source = Guessed, v_mode = Some ask_get\<rparr>]"
  have e: "\<exists>c\<in>set ?cs. c_source c = Explicit" by simp
  have g: "?vs \<noteq> [] \<and> (\<forall>v\<in>set ?vs. v_source v \<noteq> Explicit)" by simp
  from choosePreferred_selection[of ?cs ?vs] e
  obtain pre x post where x: "?cs = pre @ x # post" "c_source x = Explicit"
    "\<forall>y\<in>set pre. c_source y \<noteq> Explicit" "choosePreferred ?cs = Some x" by blast
  from x(1,2) have "x \<in> set ?cs" by (metis in_set_conv_decomp)
  with x(2) have "x = \<lparr>c_url = ''https://x.org/sparql'', c_source = Explicit\<rparr>" by auto
  with x(4) have 1: "choosePreferred ?cs = Some \<lparr>c_url = ''https://x.org/sparql'', c_source = Explicit\<rparr>"
    by simp
  from choosePreferred_selection[of ?cs ?vs] g have "chosenVerified ?vs = Some (hd ?vs)" by blast
  with 1 show ?thesis by simp
qed

section \<open>Candidate lists have unique URLs\<close>

lemma uniqueCandidates_loop_distinct:
  "seen = set (map c_url out) \<Longrightarrow> distinct (map c_url out) \<Longrightarrow>
     distinct (map c_url (uniqueCandidates_loop seen out arr))"
proof (induction arr arbitrary: seen out)
  case Nil
  then show ?case by simp
next
  case (Cons x arr)
  show ?case
  proof (cases "c_url x = [] \<or> trim (c_url x) \<in> seen")
    case True
    with Cons show ?thesis by (auto simp: Let_def)
  next
    case False
    let ?u = "trim (c_url x)"
    let ?out = "out @ [\<lparr>c_url = ?u, c_source = c_source x\<rparr>]"
    from False Cons.prems have "insert ?u seen = set (map c_url ?out)" "distinct (map c_url ?out)"
      by auto
    from Cons.IH[OF this] False show ?thesis by (simp add: Let_def)
  qed
qed

text \<open>The candidate list of a prepared portal satisfies the hypothesis on distinct URLs
  that the comparison of two executions needs.\<close>

lemma uniqueCandidates_distinct: "distinct (map c_url (uniqueCandidates arr))"
  unfolding uniqueCandidates_def by (rule uniqueCandidates_loop_distinct) simp_all



section \<open>Classifier and prober: lemmas\<close>

lemma startsWith_iff: "startsWith s p \<longleftrightarrow> (\<exists>b. s = p @ b)"
proof
  assume "startsWith s p"
  then have "s = p @ drop (length p) s"
    unfolding startsWith_def by (metis append_take_drop_id)
  then show "\<exists>b. s = p @ b" ..
next
  assume "\<exists>b. s = p @ b"
  then show "startsWith s p" by (auto simp: startsWith_def)
qed

lemma includesStr_iff: "includesStr s sub \<longleftrightarrow> (\<exists>a b. s = a @ sub @ b)"
proof (induction s)
  case Nil
  then show ?case by simp
next
  case (Cons c cs)
  show ?case
  proof
    assume "includesStr (c # cs) sub"
    then consider "startsWith (c # cs) sub" | "includesStr cs sub" by auto
    then show "\<exists>a b. c # cs = a @ sub @ b"
    proof cases
      case 1
      then obtain b where "c # cs = [] @ sub @ b" unfolding startsWith_iff by auto
      then show ?thesis by blast
    next
      case 2
      with Cons.IH obtain a b where "cs = a @ sub @ b" by blast
      then have "c # cs = (c # a) @ sub @ b" by simp
      then show ?thesis by blast
    qed
  next
    assume "\<exists>a b. c # cs = a @ sub @ b"
    then obtain a b where e: "c # cs = a @ sub @ b" by blast
    show "includesStr (c # cs) sub"
    proof (cases a)
      case Nil
      with e have "startsWith (c # cs) sub" unfolding startsWith_iff by auto
      then show ?thesis by simp
    next
      case (Cons x xs)
      with e have "cs = xs @ sub @ b" by simp
      with Cons.IH have "includesStr cs sub" by blast
      then show ?thesis by simp
    qed
  qed
qed

lemma toLowerCase_append: "toLowerCase (a @ b) = toLowerCase a @ toLowerCase b"
  by (simp add: toLowerCase_def)

lemma toLowerCase_text_html: "toLowerCase ''text/html'' = ''text/html''"
  by code_simp

lemma includes_text_html_lower:
  assumes "includesStr ct ''text/html''"
  shows "includesStr (toLowerCase ct) ''text/html''"
proof -
  from assms obtain a b where "ct = a @ ''text/html'' @ b" unfolding includesStr_iff by blast
  then have "toLowerCase ct = toLowerCase a @ ''text/html'' @ toLowerCase b"
    by (simp only: toLowerCase_append toLowerCase_text_html)
  then show ?thesis unfolding includesStr_iff by blast
qed

lemma looksLikeHtml_content_type:
  "includesStr (toLowerCase ct) ''text/html'' \<Longrightarrow> looksLikeHtml ct text"
  by (simp add: looksLikeHtml_def)

lemma fetchText_sent: "snd (fetchText pf rq sent) = sent @ [rq]"
  by (simp add: fetchText_def split: option.splits)

lemma fetchText_response:
  assumes "fetch pf sent rq = Some \<lparr>rs_ok = b, rs_content_type = Some ct, rs_text = Some text\<rparr>"
  shows "fetchText pf rq sent = (\<lparr>f_res = Some b, f_ct = ct, f_text = text\<rparr>, sent @ [rq])"
  using assms by (simp add: fetchText_def)

lemma tryAskGet_sent:
  "snd (tryAskGet pf endpoint ask timeoutMs sent) =
     sent @ (case URL_with_query pf endpoint ''query'' ask of
               None \<Rightarrow> [] | Some u \<Rightarrow> [askGetRequest u timeoutMs])"
proof (cases "URL_with_query pf endpoint ''query'' ask")
  case None
  then show ?thesis by (simp add: tryAskGet_def)
next
  case (Some u)
  obtain f sent' where f: "fetchText pf (askGetRequest u timeoutMs) sent = (f, sent')"
    by (cases "fetchText pf (askGetRequest u timeoutMs) sent")
  with fetchText_sent[of pf "askGetRequest u timeoutMs" sent]
  have "sent' = sent @ [askGetRequest u timeoutMs]" by simp
  with Some f show ?thesis
    by (simp add: tryAskGet_def askGetRequest_def Let_def)
qed

lemma tryAskPost_sent:
  "snd (tryAskPost pf endpoint ''ASK {}'' timeoutMs sent) =
     sent @ [askPostRequest pf endpoint timeoutMs]"
proof -
  obtain f sent' where f: "fetchText pf (askPostRequest pf endpoint timeoutMs) sent = (f, sent')"
    by (cases "fetchText pf (askPostRequest pf endpoint timeoutMs) sent")
  with fetchText_sent[of pf "askPostRequest pf endpoint timeoutMs" sent]
  have "sent' = sent @ [askPostRequest pf endpoint timeoutMs]" by simp
  with f show ?thesis
    by (simp add: tryAskPost_def askPostRequest_def Let_def)
qed

lemma tryServiceDescription_sent:
  "snd (tryServiceDescription pf endpoint timeoutMs sent) =
     sent @ [descriptionRequest endpoint timeoutMs]"
proof -
  obtain f sent' where f: "fetchText pf (descriptionRequest endpoint timeoutMs) sent = (f, sent')"
    by (cases "fetchText pf (descriptionRequest endpoint timeoutMs) sent")
  with fetchText_sent[of pf "descriptionRequest endpoint timeoutMs" sent]
  have "sent' = sent @ [descriptionRequest endpoint timeoutMs]" by simp
  with f show ?thesis
    by (simp add: tryServiceDescription_def descriptionRequest_def Let_def)
qed

section \<open>The regular expression: what the matcher accepts\<close>

lemma after_word_Cons: "after_word prev (c # x) = after_word (Some c) x"
  by (simp add: after_word_def)

lemma after_word_Nil: "after_word prev [] = prev"
  by (simp add: after_word_def)

lemma one_iff:
  "matches_here (One a # items) prev s \<longleftrightarrow>
     (\<exists>c rest. s = c # rest \<and> atom_matches a c \<and> matches_here items (Some c) rest)"
  by (cases s) auto

lemma star_iff:
  "matches_here (Star a # items) prev s \<longleftrightarrow>
     (\<exists>x rest. s = x @ rest \<and> (\<forall>c\<in>set x. atom_matches a c) \<and>
        matches_here items (after_word prev x) rest)"
proof (induction s arbitrary: prev)
  case Nil
  then show ?case by (simp add: after_word_Nil)
next
  case (Cons c cs)
  show ?case
  proof
    assume "matches_here (Star a # items) prev (c # cs)"
    then consider "atom_matches a c \<and> matches_here (Star a # items) (Some c) cs"
      | "matches_here items prev (c # cs)" by auto
    then show "\<exists>x rest. c # cs = x @ rest \<and> (\<forall>c\<in>set x. atom_matches a c) \<and>
        matches_here items (after_word prev x) rest"
    proof cases
      case 1
      with Cons.IH[of "Some c"] obtain x rest where "cs = x @ rest"
        "\<forall>c\<in>set x. atom_matches a c" "matches_here items (after_word (Some c) x) rest"
        by blast
      with 1 have "c # cs = (c # x) @ rest \<and> (\<forall>d\<in>set (c # x). atom_matches a d) \<and>
        matches_here items (after_word prev (c # x)) rest"
        by (simp add: after_word_Cons)
      then show ?thesis by blast
    next
      case 2
      then have "c # cs = [] @ (c # cs) \<and> (\<forall>d\<in>set []. atom_matches a d) \<and>
        matches_here items (after_word prev []) (c # cs)"
        by (simp add: after_word_Nil)
      then show ?thesis by blast
    qed
  next
    assume "\<exists>x rest. c # cs = x @ rest \<and> (\<forall>c\<in>set x. atom_matches a c) \<and>
        matches_here items (after_word prev x) rest"
    then obtain x rest where e: "c # cs = x @ rest" and a: "\<forall>c\<in>set x. atom_matches a c"
      and m: "matches_here items (after_word prev x) rest" by blast
    show "matches_here (Star a # items) prev (c # cs)"
    proof (cases x)
      case Nil
      with e m have "matches_here items prev (c # cs)" by (simp add: after_word_Nil)
      then show ?thesis by simp
    next
      case (Cons y ys)
      with e have y: "y = c" and cs: "cs = ys @ rest" by simp_all
      from m Cons y have "matches_here items (after_word (Some c) ys) rest"
        by (simp add: after_word_Cons)
      with cs a Cons have "matches_here (Star a # items) (Some c) cs"
        using Cons.IH[of "Some c"] by auto
      moreover from a Cons y have "atom_matches a c" by simp
      ultimately show ?thesis by simp
    qed
  qed
qed

lemma ci_eq_Nil: "ci_eq x [] \<longleftrightarrow> x = []"
  by (simp add: ci_eq_def)

lemma ci_eq_Cons:
  "ci_eq x (a # w) \<longleftrightarrow> (\<exists>c x'. x = c # x' \<and> canonicalize c = canonicalize a \<and> ci_eq x' w)"
  by (cases x) (auto simp: ci_eq_def)

lemma ci_eq_length: "ci_eq x w \<Longrightarrow> length x = length w"
  unfolding ci_eq_def by (metis length_map)

lemma chars_iff:
  "matches_here (chars w @ items) prev s \<longleftrightarrow>
     (\<exists>x rest. s = x @ rest \<and> ci_eq x w \<and> matches_here items (after_word prev x) rest)"
proof (induction w arbitrary: prev s)
  case Nil
  then show ?case by (simp add: chars_def ci_eq_Nil after_word_Nil)
next
  case (Cons a w)
  have c: "chars (a # w) @ items = One (Lit a) # (chars w @ items)" by (simp add: chars_def)
  show ?case
  proof
    assume "matches_here (chars (a # w) @ items) prev s"
    then obtain d rest0 where s: "s = d # rest0" and d: "canonicalize d = canonicalize a"
      and m: "matches_here (chars w @ items) (Some d) rest0"
      unfolding c one_iff by auto
    from m Cons.IH[of "Some d" rest0] obtain x rest where "rest0 = x @ rest" "ci_eq x w"
      "matches_here items (after_word (Some d) x) rest" by blast
    with s d have "s = (d # x) @ rest \<and> ci_eq (d # x) (a # w) \<and>
        matches_here items (after_word prev (d # x)) rest"
      by (simp add: ci_eq_Cons after_word_Cons)
    then show "\<exists>x rest. s = x @ rest \<and> ci_eq x (a # w) \<and>
        matches_here items (after_word prev x) rest" by blast
  next
    assume "\<exists>x rest. s = x @ rest \<and> ci_eq x (a # w) \<and> matches_here items (after_word prev x) rest"
    then obtain x rest where s: "s = x @ rest" and e: "ci_eq x (a # w)"
      and m: "matches_here items (after_word prev x) rest" by blast
    from e obtain d x' where x: "x = d # x'" and d: "canonicalize d = canonicalize a"
      and e': "ci_eq x' w" unfolding ci_eq_Cons by blast
    from m x have "matches_here items (after_word (Some d) x') rest" by (simp add: after_word_Cons)
    with e' have "matches_here (chars w @ items) (Some d) (x' @ rest)"
      using Cons.IH[of "Some d" "x' @ rest"] by blast
    with s x d show "matches_here (chars (a # w) @ items) prev s"
      unfolding c by simp
  qed
qed

lemma words_match_iff: "words_match w s \<longleftrightarrow> (\<exists>x rest. s = x @ rest \<and> ci_eq x w)"
proof
  assume "words_match w s"
  then have "s = take (length w) s @ drop (length w) s \<and> ci_eq (take (length w) s) w"
    by (simp add: words_match_def ci_eq_def)
  then show "\<exists>x rest. s = x @ rest \<and> ci_eq x w" by blast
next
  assume "\<exists>x rest. s = x @ rest \<and> ci_eq x w"
  then obtain x rest where s: "s = x @ rest" and e: "ci_eq x w" by blast
  from ci_eq_length[OF e] s have "take (length w) s = x" by simp
  with e s ci_eq_length[OF e] show "words_match w s" by (simp add: words_match_def ci_eq_def)
qed

lemma words_iff:
  "matches_here (Words ws # items) prev s \<longleftrightarrow>
     (\<exists>w\<in>set ws. \<exists>x rest. s = x @ rest \<and> ci_eq x w \<and>
        matches_here items (after_word prev x) rest)"
proof
  assume "matches_here (Words ws # items) prev s"
  then obtain w where w: "w \<in> set ws" and wm: "words_match w s"
    and m: "matches_here items (after_word prev (take (length w) s)) (drop (length w) s)"
    by auto
  from wm have "s = take (length w) s @ drop (length w) s \<and> ci_eq (take (length w) s) w"
    by (simp add: words_match_def ci_eq_def)
  with w m show "\<exists>w\<in>set ws. \<exists>x rest. s = x @ rest \<and> ci_eq x w \<and>
        matches_here items (after_word prev x) rest" by blast
next
  assume "\<exists>w\<in>set ws. \<exists>x rest. s = x @ rest \<and> ci_eq x w \<and>
        matches_here items (after_word prev x) rest"
  then obtain w x rest where w: "w \<in> set ws" and s: "s = x @ rest" and e: "ci_eq x w"
    and m: "matches_here items (after_word prev x) rest" by blast
  from ci_eq_length[OF e] s have t: "take (length w) s = x" "drop (length w) s = rest" by simp_all
  from s e have "words_match w s" unfolding words_match_iff by blast
  with w t m show "matches_here (Words ws # items) prev s" by auto
qed

lemma test_from_iff:
  "test_from items prev s \<longleftrightarrow>
     (\<exists>pre rest. s = pre @ rest \<and> matches_here items (after_word prev pre) rest)"
proof (induction s arbitrary: prev)
  case Nil
  then show ?case by (simp add: after_word_Nil)
next
  case (Cons c cs)
  show ?case
  proof
    assume "test_from items prev (c # cs)"
    then consider "matches_here items prev (c # cs)" | "test_from items (Some c) cs" by auto
    then show "\<exists>pre rest. c # cs = pre @ rest \<and> matches_here items (after_word prev pre) rest"
    proof cases
      case 1
      then have "c # cs = [] @ (c # cs) \<and> matches_here items (after_word prev []) (c # cs)"
        by (simp add: after_word_Nil)
      then show ?thesis by blast
    next
      case 2
      with Cons.IH[of "Some c"] obtain pre rest where "cs = pre @ rest"
        "matches_here items (after_word (Some c) pre) rest" by blast
      then have "c # cs = (c # pre) @ rest \<and> matches_here items (after_word prev (c # pre)) rest"
        by (simp add: after_word_Cons)
      then show ?thesis by blast
    qed
  next
    assume "\<exists>pre rest. c # cs = pre @ rest \<and> matches_here items (after_word prev pre) rest"
    then obtain pre rest where e: "c # cs = pre @ rest"
      and m: "matches_here items (after_word prev pre) rest" by blast
    show "test_from items prev (c # cs)"
    proof (cases pre)
      case Nil
      with e m have "matches_here items prev (c # cs)" by (simp add: after_word_Nil)
      then show ?thesis by simp
    next
      case (Cons y ys)
      with e have "y = c" "cs = ys @ rest" by simp_all
      with m Cons have "test_from items (Some c) cs"
        using Cons.IH[of "Some c"] by (auto simp: after_word_Cons)
      then show ?thesis by simp
    qed
  qed
qed

lemma canonicalize_gt: "canonicalize c = CHR ''>'' \<longleftrightarrow> c = CHR ''>''"
proof
  assume a: "canonicalize c = CHR ''>''"
  let ?n = "of_char c :: nat"
  show "c = CHR ''>''"
  proof (cases "(97 \<le> ?n \<and> ?n \<le> 122) \<or> (224 \<le> ?n \<and> ?n \<le> 254 \<and> ?n \<noteq> 247)")
    case True
    with a have "char_of (?n - 32) = CHR ''>''" by (simp add: canonicalize_def Let_def)
    then have "(of_char (char_of (?n - 32)) :: nat) = of_char CHR ''>''" by simp
    then have "(?n - 32) mod 256 = 62" by simp
    moreover have "?n < 256" by simp
    ultimately have "?n - 32 = 62" by simp
    with True show ?thesis by arith
  next
    case False
    with a show ?thesis by (simp add: canonicalize_def Let_def)
  qed
next
  assume "c = CHR ''>''"
  then show "canonicalize c = CHR ''>''" by (simp add: canonicalize_def)
qed

lemma canonicalize_l_word:
  assumes "canonicalize c = canonicalize CHR ''l''"
  shows "is_word c"
proof -
  let ?n = "of_char c :: nat"
  have l: "canonicalize CHR ''l'' = CHR ''L''" by code_simp
  show ?thesis
  proof (cases "(97 \<le> ?n \<and> ?n \<le> 122) \<or> (224 \<le> ?n \<and> ?n \<le> 254 \<and> ?n \<noteq> 247)")
    case True
    then have "canonicalize c = char_of (?n - 32)" by (simp add: canonicalize_def Let_def)
    with assms l have "char_of (?n - 32) = CHR ''L''" by (simp only:)
    then have "(of_char (char_of (?n - 32)) :: nat) = of_char CHR ''L''" by (simp only:)
    then have "(?n - 32) mod 256 = 76" by simp
    moreover have "?n < 256" by simp
    ultimately have "?n - 32 = 76" by simp
    with True have "?n = 108" by arith
    then show ?thesis by (simp add: is_word_def)
  next
    case False
    with assms l have "c = CHR ''L''" by (simp add: canonicalize_def Let_def)
    then show ?thesis by (simp add: is_word_def)
  qed
qed

lemma gt_not_word: "\<not> is_word CHR ''>''"
  by (simp add: is_word_def)

lemma atom_gt: "atom_matches (Lit CHR ''>'') c \<longleftrightarrow> c = CHR ''>''"
  using canonicalize_gt[of c] canonicalize_gt[of "CHR ''>''"] by simp

lemma atom_not_gt: "atom_matches (NoneOf ''>'') c \<longleftrightarrow> c \<noteq> CHR ''>''"
  using canonicalize_gt[of c] canonicalize_gt[of "CHR ''>''"] by simp

lemma sparqlAskPattern_split:
  "sparqlAskPattern =
     chars ''<sparql'' @ WordBoundary # Star (NoneOf ''>'') # One (Lit CHR ''>'') # tailPattern"
  by (simp add: sparqlAskPattern_def tailPattern_def)

lemma tail_nested:
  "matches_here tailPattern prev s \<longleftrightarrow>
     (\<exists>mid r1. s = mid @ r1 \<and>
       (\<exists>opn r2. r1 = opn @ r2 \<and> ci_eq opn ''<boolean>'' \<and>
         (\<exists>w\<in>set [''true'', ''false'']. \<exists>word r3. r2 = word @ r3 \<and> ci_eq word w \<and>
           (\<exists>cls r4. r3 = cls @ r4 \<and> ci_eq cls ''</boolean>'' \<and>
             (\<exists>mid' r5. r4 = mid' @ r5 \<and>
               (\<exists>fin post. r5 = fin @ post \<and> ci_eq fin ''</sparql>''))))))"
proof -
  have t: "\<And>x::string. (\<forall>c\<in>set x. True) = True" by simp
  show ?thesis
    unfolding tailPattern_def
    by (simp only: star_iff chars_iff words_iff matches_here.simps(1) atom_matches.simps
          t simp_thms)
qed

lemma tail_iff: "matches_here tailPattern prev s \<longleftrightarrow> tail_shaped s"
proof
  assume "matches_here tailPattern prev s"
  then obtain mid opn word cls mid' fin post w where
    "s = mid @ opn @ word @ cls @ mid' @ fin @ post" "ci_eq opn ''<boolean>''"
    "w \<in> set [''true'', ''false'']" "ci_eq word w" "ci_eq cls ''</boolean>''"
    "ci_eq fin ''</sparql>''"
    unfolding tail_nested by blast
  moreover from this have "ci_eq word ''true'' \<or> ci_eq word ''false''" by auto
  ultimately show "tail_shaped s" unfolding tail_shaped_def by blast
next
  assume "tail_shaped s"
  then obtain mid opn word cls mid' fin post where
    s: "s = mid @ opn @ word @ cls @ mid' @ fin @ post" and o: "ci_eq opn ''<boolean>''"
    and w: "ci_eq word ''true'' \<or> ci_eq word ''false''" and c: "ci_eq cls ''</boolean>''"
    and f: "ci_eq fin ''</sparql>''"
    unfolding tail_shaped_def by blast
  from w obtain w' where w': "w' \<in> set [''true'', ''false'']" "ci_eq word w'" by auto
  from f have 5: "\<exists>fin' post'. fin @ post = fin' @ post' \<and> ci_eq fin' ''</sparql>''"
    by blast
  then have 4: "\<exists>m r5. mid' @ fin @ post = m @ r5 \<and>
      (\<exists>fin' post'. r5 = fin' @ post' \<and> ci_eq fin' ''</sparql>'')" by blast
  with c have 3: "\<exists>cls' r4. cls @ mid' @ fin @ post = cls' @ r4 \<and> ci_eq cls' ''</boolean>'' \<and>
      (\<exists>m r5. r4 = m @ r5 \<and>
        (\<exists>fin' post'. r5 = fin' @ post' \<and> ci_eq fin' ''</sparql>''))" by blast
  with w' have 2: "\<exists>w\<in>set [''true'', ''false''].
      \<exists>word' r3. word @ cls @ mid' @ fin @ post = word' @ r3 \<and> ci_eq word' w \<and>
      (\<exists>cls' r4. r3 = cls' @ r4 \<and> ci_eq cls' ''</boolean>'' \<and>
        (\<exists>m r5. r4 = m @ r5 \<and>
          (\<exists>fin' post'. r5 = fin' @ post' \<and> ci_eq fin' ''</sparql>'')))" by blast
  have 1: "\<exists>opn' r2. opn @ word @ cls @ mid' @ fin @ post = opn' @ r2 \<and>
      ci_eq opn' ''<boolean>'' \<and>
      (\<exists>w\<in>set [''true'', ''false''].
        \<exists>word' r3. r2 = word' @ r3 \<and> ci_eq word' w \<and>
        (\<exists>cls' r4. r3 = cls' @ r4 \<and> ci_eq cls' ''</boolean>'' \<and>
          (\<exists>m r5. r4 = m @ r5 \<and>
            (\<exists>fin' post'. r5 = fin' @ post' \<and> ci_eq fin' ''</sparql>''))))"
    by (rule exI[of _ opn], rule exI[of _ "word @ cls @ mid' @ fin @ post"],
        intro conjI refl o 2)
  show "matches_here tailPattern prev s"
    unfolding tail_nested s
    by (rule exI[of _ mid], rule exI[of _ "opn @ word @ cls @ mid' @ fin @ post"],
        intro conjI refl 1)
qed

lemma ci_eq_last:
  assumes "ci_eq x w" "w \<noteq> []"
  shows "x \<noteq> [] \<and> canonicalize (last x) = canonicalize (last w)"
proof -
  from assms ci_eq_length[OF assms(1)] have x: "x \<noteq> []" by auto
  from assms(1) have "last (map canonicalize x) = last (map canonicalize w)"
    by (simp add: ci_eq_def)
  with x assms(2) show ?thesis by (simp add: last_map)
qed

lemma boundary_after_sparql:
  assumes tag: "ci_eq tag ''<sparql''" and gt: "CHR ''>'' \<notin> set attrs"
  shows "at_boundary (after_word prev tag) (attrs @ CHR ''>'' # rest) \<longleftrightarrow>
         (attrs = [] \<or> \<not> is_word (hd attrs))"
proof -
  from ci_eq_last[OF tag] have ne: "tag \<noteq> []"
    and "canonicalize (last tag) = canonicalize (last ''<sparql'')" by simp_all
  then have "canonicalize (last tag) = canonicalize CHR ''l''" by simp
  then have w: "is_word (last tag)" by (rule canonicalize_l_word)
  from ne have p: "after_word prev tag = Some (last tag)" by (simp add: after_word_def)
  show ?thesis
  proof (cases attrs)
    case Nil
    with p w show ?thesis by (simp add: at_boundary_def gt_not_word)
  next
    case (Cons a as)
    with p w show ?thesis by (simp add: at_boundary_def)
  qed
qed

lemma head_iff:
  "matches_here sparqlAskPattern prev s \<longleftrightarrow>
     (\<exists>tag attrs rest. s = tag @ attrs @ ''>'' @ rest \<and> ci_eq tag ''<sparql'' \<and>
        CHR ''>'' \<notin> set attrs \<and> (attrs = [] \<or> \<not> is_word (hd attrs)) \<and> tail_shaped rest)"
proof
  assume "matches_here sparqlAskPattern prev s"
  then obtain tag r0 where s: "s = tag @ r0" and tag: "ci_eq tag ''<sparql''"
    and m0: "matches_here (WordBoundary # Star (NoneOf ''>'') # One (Lit CHR ''>'') # tailPattern)
               (after_word prev tag) r0"
    unfolding sparqlAskPattern_split chars_iff by blast
  from m0 have b: "at_boundary (after_word prev tag) r0"
    and m1: "matches_here (Star (NoneOf ''>'') # One (Lit CHR ''>'') # tailPattern)
               (after_word prev tag) r0" by simp_all
  from m1 obtain attrs r1 where r0: "r0 = attrs @ r1"
    and a: "\<forall>c\<in>set attrs. atom_matches (NoneOf ''>'') c"
    and m2: "matches_here (One (Lit CHR ''>'') # tailPattern)
               (after_word (after_word prev tag) attrs) r1"
    unfolding star_iff by blast
  from m2 obtain c rest where r1: "r1 = c # rest" and c: "atom_matches (Lit CHR ''>'') c"
    and m3: "matches_here tailPattern (Some c) rest"
    unfolding one_iff by blast
  from c have cgt: "c = CHR ''>''" unfolding atom_gt .
  from a have gt: "CHR ''>'' \<notin> set attrs" unfolding atom_not_gt by blast
  from m3 have t: "tail_shaped rest" unfolding tail_iff .
  from b r0 r1 cgt have "attrs = [] \<or> \<not> is_word (hd attrs)"
    using boundary_after_sparql[OF tag gt, of prev rest] by simp
  with s r0 r1 cgt tag gt t
  have "s = tag @ attrs @ ''>'' @ rest \<and> ci_eq tag ''<sparql'' \<and>
        CHR ''>'' \<notin> set attrs \<and> (attrs = [] \<or> \<not> is_word (hd attrs)) \<and> tail_shaped rest"
    by simp
  then show "\<exists>tag attrs rest. s = tag @ attrs @ ''>'' @ rest \<and> ci_eq tag ''<sparql'' \<and>
        CHR ''>'' \<notin> set attrs \<and> (attrs = [] \<or> \<not> is_word (hd attrs)) \<and> tail_shaped rest"
    by blast
next
  assume "\<exists>tag attrs rest. s = tag @ attrs @ ''>'' @ rest \<and> ci_eq tag ''<sparql'' \<and>
        CHR ''>'' \<notin> set attrs \<and> (attrs = [] \<or> \<not> is_word (hd attrs)) \<and> tail_shaped rest"
  then obtain tag attrs rest where s: "s = tag @ attrs @ ''>'' @ rest"
    and tag: "ci_eq tag ''<sparql''" and gt: "CHR ''>'' \<notin> set attrs"
    and bw: "attrs = [] \<or> \<not> is_word (hd attrs)" and t: "tail_shaped rest" by blast
  from t have m3: "matches_here tailPattern (Some CHR ''>'') rest" unfolding tail_iff .
  have m2: "matches_here (One (Lit CHR ''>'') # tailPattern)
               (after_word (after_word prev tag) attrs) (CHR ''>'' # rest)"
    unfolding one_iff atom_gt using m3 by blast
  from gt have a: "\<forall>c\<in>set attrs. atom_matches (NoneOf ''>'') c" unfolding atom_not_gt by blast
  have m1: "matches_here (Star (NoneOf ''>'') # One (Lit CHR ''>'') # tailPattern)
               (after_word prev tag) (attrs @ CHR ''>'' # rest)"
    unfolding star_iff
    by (rule exI[of _ attrs], rule exI[of _ "CHR ''>'' # rest"], intro conjI refl a m2)
  from bw have b: "at_boundary (after_word prev tag) (attrs @ CHR ''>'' # rest)"
    unfolding boundary_after_sparql[OF tag gt] .
  from b m1 have m0: "matches_here
      (WordBoundary # Star (NoneOf ''>'') # One (Lit CHR ''>'') # tailPattern)
      (after_word prev tag) (attrs @ CHR ''>'' # rest)" by simp
  show "matches_here sparqlAskPattern prev s"
    unfolding sparqlAskPattern_split chars_iff
    by (rule exI[of _ tag], rule exI[of _ "attrs @ CHR ''>'' # rest"])
       (use s tag m0 in simp)
qed

lemma looksLikeXmlAsk_shaped:
  "looksLikeXmlAsk body \<longleftrightarrow> sparql_boolean_shaped (take 200000 body)"
proof -
  let ?t = "take 200000 body"
  have "looksLikeXmlAsk body \<longleftrightarrow>
        (\<exists>pre rest. ?t = pre @ rest \<and> matches_here sparqlAskPattern (after_word None pre) rest)"
    by (simp add: looksLikeXmlAsk_def test_def test_from_iff)
  also have "\<dots> \<longleftrightarrow> sparql_boolean_shaped ?t"
  proof
    assume "\<exists>pre rest. ?t = pre @ rest \<and> matches_here sparqlAskPattern (after_word None pre) rest"
    then obtain pre tag attrs rest where "?t = pre @ tag @ attrs @ ''>'' @ rest"
      "ci_eq tag ''<sparql''" "CHR ''>'' \<notin> set attrs" "attrs = [] \<or> \<not> is_word (hd attrs)"
      and "tail_shaped rest"
      unfolding head_iff by blast
    moreover from \<open>tail_shaped rest\<close> obtain mid opn word cls mid' fin post where
      "rest = mid @ opn @ word @ cls @ mid' @ fin @ post" "ci_eq opn ''<boolean>''"
      "ci_eq word ''true'' \<or> ci_eq word ''false''" "ci_eq cls ''</boolean>''"
      "ci_eq fin ''</sparql>''"
      unfolding tail_shaped_def by blast
    ultimately show "sparql_boolean_shaped ?t"
      unfolding sparql_boolean_shaped_def by blast
  next
    assume "sparql_boolean_shaped ?t"
    then obtain pre tag attrs mid opn word cls mid' fin post where
      t: "?t = pre @ tag @ attrs @ ''>'' @ mid @ opn @ word @ cls @ mid' @ fin @ post"
      and h: "ci_eq tag ''<sparql''" "CHR ''>'' \<notin> set attrs" "attrs = [] \<or> \<not> is_word (hd attrs)"
      and tl: "ci_eq opn ''<boolean>''" "ci_eq word ''true'' \<or> ci_eq word ''false''"
        "ci_eq cls ''</boolean>''" "ci_eq fin ''</sparql>''"
      unfolding sparql_boolean_shaped_def by blast
    from tl have "tail_shaped (mid @ opn @ word @ cls @ mid' @ fin @ post)"
      unfolding tail_shaped_def by blast
    with h have "matches_here sparqlAskPattern (after_word None pre)
        (tag @ attrs @ ''>'' @ mid @ opn @ word @ cls @ mid' @ fin @ post)"
      unfolding head_iff by blast
    with t show "\<exists>pre rest. ?t = pre @ rest \<and>
        matches_here sparqlAskPattern (after_word None pre) rest" by blast
  qed
  finally show ?thesis .
qed

lemma ci_eq_refl: "ci_eq x x"
  by (simp add: ci_eq_def)

lemma xml_ack_contained:
  assumes b: "body = pre @ xml_ack_body @ post" and l: "length (pre @ xml_ack_body) \<le> 200000"
  shows "looksLikeXmlAsk body"
proof -
  from b l have "take 200000 body = pre @ xml_ack_body @ take (200000 - length (pre @ xml_ack_body)) post"
    by simp
  then have "take 200000 body =
      pre @ ''<sparql'' @ [] @ ''>'' @ ''<results>'' @ ''<boolean>'' @ ''true'' @ ''</boolean>'' @
      ''</results>'' @ ''</sparql>'' @ take (200000 - length (pre @ xml_ack_body)) post"
    by (simp add: xml_ack_body_def)
  moreover have "CHR ''>'' \<notin> set ([] :: string)" "([] :: string) = [] \<or> \<not> is_word (hd [])"
    by simp_all
  ultimately have "sparql_boolean_shaped (take 200000 body)"
    unfolding sparql_boolean_shaped_def using ci_eq_refl by blast
  then show ?thesis unfolding looksLikeXmlAsk_shaped .
qed

lemma sparql_xml_content_type:
  "includesStr (toLowerCase ''application/sparql-results+xml'') ''application/sparql-results+xml''"
  "\<not> includesStr (toLowerCase ''application/sparql-results+xml'') ''application/sparql-results+json''"
  by code_simp+

section \<open>The worker pool: basic facts\<close>

lemma Map_set_absent: "\<not> Map_has m k \<Longrightarrow> Map_set m k v = m @ [(k, v)]"
  by (induction m) (auto simp: Map_has_def)

lemma settle_cases:
  assumes "settle t res s = Inr s'"
  shows "s' = s \<or>
         (ok res \<and> portalIndex t < length (verifiedMap s) \<and>
          \<not> Map_has (verifiedMap s ! portalIndex t) (t_url t) \<and>
          s' = s\<lparr>verifiedMap := (verifiedMap s)[portalIndex t :=
                  verifiedMap s ! portalIndex t @
                    [(t_url t, \<lparr>v_url = t_url t, v_source = t_source t, v_mode = mode res\<rparr>)]]\<rparr>)"
  using assms
  by (auto simp: settle_def Let_def Map_set_absent split: if_splits)

lemma settle_fields:
  "settle t res s = Inr s' \<Longrightarrow>
     cursor s' = cursor s \<and> runners s' = runners s \<and> claimed s' = claimed s \<and>
     length (verifiedMap s') = length (verifiedMap s)"
  by (auto dest!: settle_cases)

lemma claim_verifiedMap: "verifiedMap (claim tasks w s) = verifiedMap s"
  by (simp add: claim_def Let_def)

lemma claim_cursor: "cursor (claim tasks w s) = Suc (cursor s)"
  by (simp add: claim_def Let_def)

lemma claim_runners:
  "runners (claim tasks w s) =
     (runners s)[w := (if cursor s < length tasks then Some (cursor s, tasks ! cursor s) else None)]"
  by (simp add: claim_def Let_def)

lemma claim_claimed:
  "claimed (claim tasks w s) =
     (if cursor s < length tasks then claimed s @ [(w, cursor s)] else claimed s)"
  by (simp add: claim_def Let_def)

lemma resume_cases:
  assumes "resume probe tasks w s = Inr s'"
  shows "s' = s \<and> (w \<ge> length (runners s) \<or> runners s ! w = None) \<or>
         (\<exists>j t res s1. w < length (runners s) \<and> runners s ! w = Some (j, t) \<and>
            probe t = Inr res \<and> settle t res s = Inr s1 \<and> s' = claim tasks w s1)"
  using assms
  by (auto simp: resume_def split: if_splits option.splits sum.splits)

lemma settle_keyed:
  assumes "settle t res s = Inr s'" and "\<forall>m\<in>set (verifiedMap s). keyedByUrl m"
  shows "\<forall>m\<in>set (verifiedMap s'). keyedByUrl m"
proof -
  from settle_cases[OF assms(1)] show ?thesis
  proof
    assume "s' = s" with assms(2) show ?thesis by simp
  next
    assume a: "ok res \<and> portalIndex t < length (verifiedMap s) \<and>
          \<not> Map_has (verifiedMap s ! portalIndex t) (t_url t) \<and>
          s' = s\<lparr>verifiedMap := (verifiedMap s)[portalIndex t :=
                  verifiedMap s ! portalIndex t @
                    [(t_url t, \<lparr>v_url = t_url t, v_source = t_source t, v_mode = mode res\<rparr>)]]\<rparr>"
    let ?m = "verifiedMap s ! portalIndex t"
    from a assms(2) have "keyedByUrl ?m" by simp
    with a have "keyedByUrl (?m @ [(t_url t, \<lparr>v_url = t_url t, v_source = t_source t, v_mode = mode res\<rparr>)])"
      by (auto simp: keyedByUrl_def Map_has_def)
    with a assms(2) show ?thesis
      by (auto dest!: set_update_subset_insert[THEN subsetD])
  qed
qed

lemma settle_prefix:
  assumes "settle t res s = Inr s'" and "i < length (verifiedMap s)"
  shows "\<exists>ext. verifiedMap s' ! i = verifiedMap s ! i @ ext"
  using settle_cases[OF assms(1)] assms(2)
  by (auto simp: nth_list_update)

lemma settle_idem:
  assumes "settle t res s = Inr s1" "ok res"
  shows "settle t res' s1 = Inr s1"
proof (cases "Map_has (verifiedMap s ! portalIndex t) (t_url t)")
  case True
  with assms have "s1 = s" by (auto simp: settle_def Let_def split: if_splits)
  with True assms show ?thesis by (auto simp: settle_def Let_def split: if_splits)
next
  case False
  with assms have r: "portalIndex t < length (verifiedMap s)"
    and s1: "s1 = s\<lparr>verifiedMap := (verifiedMap s)[portalIndex t :=
                  verifiedMap s ! portalIndex t @
                    [(t_url t, \<lparr>v_url = t_url t, v_source = t_source t, v_mode = mode res\<rparr>)]]\<rparr>"
    by (auto simp: settle_def Let_def Map_set_absent split: if_splits)
  from r s1 have "Map_has (verifiedMap s1 ! portalIndex t) (t_url t)"
    by (simp add: Map_has_def)
  with r s1 show ?thesis by (simp add: settle_def Let_def)
qed

lemma launched_0:
  "launched tasks nitems W 0 =
     \<lparr>cursor = 0, verifiedMap = replicate nitems [], runners = replicate W None, claimed = []\<rparr>"
  by (simp add: launched_def map_replicate_const)

lemma claim_launched:
  assumes "k < W"
  shows "claim tasks k (launched tasks nitems W k) = launched tasks nitems W (Suc k)"
proof -
  have r: "(map (\<lambda>i. if i < k \<and> i < length tasks then Some (i, tasks ! i) else None) [0..<W])
            [k := (if k < length tasks then Some (k, tasks ! k) else None)]
         = map (\<lambda>i. if i < Suc k \<and> i < length tasks then Some (i, tasks ! i) else None) [0..<W]"
    using assms by (intro nth_equalityI) (auto simp: nth_list_update less_Suc_eq)
  show ?thesis
  proof (cases "k < length tasks")
    case True
    then have "min (Suc k) (length tasks) = Suc (min k (length tasks))" by simp
    with True r show ?thesis
      by (simp add: claim_def launched_def Let_def)
  next
    case False
    then have "min (Suc k) (length tasks) = min k (length tasks)" by simp
    with False r show ?thesis
      by (simp add: claim_def launched_def Let_def)
  qed
qed

lemma fold_claim_launched:
  "k \<le> W \<Longrightarrow> fold (claim tasks) [0..<k] (launched tasks nitems W 0) = launched tasks nitems W k"
proof (induction k)
  case 0
  then show ?case by simp
next
  case (Suc k)
  then show ?case by (simp add: claim_launched)
qed

lemma launch_eq:
  "launch tasks nitems W = launched tasks nitems W W"
  using fold_claim_launched[of W W tasks nitems]
  by (simp add: launch_def launched_0)

lemma runnerCount_cases:
  assumes "runnerCount concurrency = Inr W"
  shows "(concurrency = NaN \<and> W = 0) \<or> (concurrency = NegInfinity \<and> W = 1) \<or>
         (\<exists>c. concurrency = Finite c \<and> c \<le> 4294967295 \<and> W = nat (max 1 c))"
  using assms
  by (cases concurrency)
     (auto simp: runnerCount_def Math_max_def ToLength_def Let_def split: if_splits)

lemma runnerCount_pos:
  assumes "runnerCount concurrency = Inr W" and "concurrency \<noteq> NaN"
  shows "0 < W"
  using runnerCount_cases[OF assms(1)] assms(2) by auto

lemma pool_inv_launched:
  "pool_inv tasks n W (launched tasks n W W)"
proof -
  have "map (snd \<circ> (\<lambda>i. (i, i))) [0..<min W (length tasks)] = [0..<min W (length tasks)]"
    by (simp add: comp_def)
  then show ?thesis
    unfolding pool_inv_def launched_def
    by (auto simp: keyedByUrl_def split: if_splits)
qed

lemma pool_inv_settle:
  assumes "settle t res s = Inr s1" and "pool_inv tasks n W s"
  shows "pool_inv tasks n W s1"
proof -
  from settle_fields[OF assms(1)]
  have f: "cursor s1 = cursor s" "runners s1 = runners s" "claimed s1 = claimed s"
    "length (verifiedMap s1) = length (verifiedMap s)" by simp_all
  from assms(2) have "\<forall>m\<in>set (verifiedMap s). keyedByUrl m" by (simp add: pool_inv_def)
  from settle_keyed[OF assms(1) this] have "\<forall>m\<in>set (verifiedMap s1). keyedByUrl m" .
  with assms(2) f show ?thesis by (simp add: pool_inv_def)
qed

lemma pool_inv_claim:
  assumes inv: "pool_inv tasks n W s" and w: "w < W"
  shows "pool_inv tasks n W (claim tasks w s)"
proof -
  let ?s' = "claim tasks w s"
  let ?c = "cursor s"
  from inv have lenr: "length (runners s) = W" by (simp add: pool_inv_def)
  have r': "\<And>w'. w' < W \<Longrightarrow> runners ?s' ! w' =
      (if w' = w then (if ?c < length tasks then Some (?c, tasks ! ?c) else None)
       else runners s ! w')"
    using lenr w by (simp add: claim_runners nth_list_update)
  have 1: "length (verifiedMap ?s') = n"
    using inv by (simp add: claim_verifiedMap pool_inv_def)
  have 2: "length (runners ?s') = W"
    using lenr by (simp add: claim_runners)
  have 3: "map snd (claimed ?s') = [0..<min (cursor ?s') (length tasks)]"
  proof (cases "?c < length tasks")
    case True
    then have "min (Suc ?c) (length tasks) = Suc ?c" "min ?c (length tasks) = ?c" by simp_all
    with True inv show ?thesis
      by (simp add: claim_claimed claim_cursor pool_inv_def)
  next
    case False
    then have "min (Suc ?c) (length tasks) = min ?c (length tasks)" by simp
    with False inv show ?thesis
      by (simp add: claim_claimed claim_cursor pool_inv_def)
  qed
  have 4: "\<forall>(w, j)\<in>set (claimed ?s'). w < W"
    using inv w by (auto simp: claim_claimed pool_inv_def)
  have old: "\<And>w' j t. w' < W \<Longrightarrow> runners s ! w' = Some (j, t) \<Longrightarrow>
        j < ?c \<and> j < length tasks \<and> t = tasks ! j"
    using inv unfolding pool_inv_def by blast
  have 5: "\<forall>w' j t. w' < W \<and> runners ?s' ! w' = Some (j, t) \<longrightarrow>
        j < cursor ?s' \<and> j < length tasks \<and> t = tasks ! j"
  proof (intro allI impI)
    fix w' j t assume a: "w' < W \<and> runners ?s' ! w' = Some (j, t)"
    show "j < cursor ?s' \<and> j < length tasks \<and> t = tasks ! j"
    proof (cases "w' = w")
      case True
      with a r'[of w'] show ?thesis by (auto simp: claim_cursor split: if_splits)
    next
      case False
      with a r'[of w'] have "runners s ! w' = Some (j, t)" by simp
      with old[of w' j t] a show ?thesis by (simp add: claim_cursor)
    qed
  qed
  have olddist: "\<And>w1 w2 j t t'. w1 < W \<Longrightarrow> w2 < W \<Longrightarrow> runners s ! w1 = Some (j, t) \<Longrightarrow>
        runners s ! w2 = Some (j, t') \<Longrightarrow> w1 = w2"
    using inv unfolding pool_inv_def by blast
  have 6: "\<forall>w1 w2 j t t'. w1 < W \<and> w2 < W \<and> runners ?s' ! w1 = Some (j, t) \<and>
        runners ?s' ! w2 = Some (j, t') \<longrightarrow> w1 = w2"
  proof (intro allI impI)
    fix w1 w2 j t t'
    assume a: "w1 < W \<and> w2 < W \<and> runners ?s' ! w1 = Some (j, t) \<and>
        runners ?s' ! w2 = Some (j, t')"
    show "w1 = w2"
    proof (cases "w1 = w")
      case w1: True
      show ?thesis
      proof (cases "w2 = w")
        case True with w1 show ?thesis by simp
      next
        case False
        with a r'[of w2] have "runners s ! w2 = Some (j, t')" by simp
        with old[of w2 j t'] a have "j < ?c" by simp
        moreover from w1 a r'[of w1] have "j = ?c" by (auto split: if_splits)
        ultimately show ?thesis by simp
      qed
    next
      case w1: False
      with a r'[of w1] have h1: "runners s ! w1 = Some (j, t)" by simp
      show ?thesis
      proof (cases "w2 = w")
        case True
        with a r'[of w2] have "j = ?c" by (auto split: if_splits)
        moreover from old[OF _ h1] a have "j < ?c" by simp
        ultimately show ?thesis by simp
      next
        case False
        with a r'[of w2] have "runners s ! w2 = Some (j, t')" by simp
        with olddist[OF _ _ h1 this] a show ?thesis by simp
      qed
    qed
  qed
  have 7: "cursor ?s' < length tasks \<longrightarrow> (\<forall>w'<W. runners ?s' ! w' \<noteq> None)"
  proof (intro impI allI)
    fix w' assume c: "cursor ?s' < length tasks" and w': "w' < W"
    then have c0: "?c < length tasks" by (simp add: claim_cursor)
    with inv w' have "runners s ! w' \<noteq> None" by (simp add: pool_inv_def)
    with r'[OF w'] c0 show "runners ?s' ! w' \<noteq> None" by simp
  qed
  have 8: "\<forall>m\<in>set (verifiedMap ?s'). keyedByUrl m"
    using inv by (simp add: claim_verifiedMap pool_inv_def)
  from 1 2 3 4 5 6 7 8 show ?thesis unfolding pool_inv_def by blast
qed

lemma pool_inv_resume:
  assumes "resume probe tasks w s = Inr s'" and "pool_inv tasks n W s"
  shows "pool_inv tasks n W s'"
proof -
  from resume_cases[OF assms(1)] show ?thesis
  proof
    assume "s' = s \<and> (w \<ge> length (runners s) \<or> runners s ! w = None)"
    with assms(2) show ?thesis by simp
  next
    assume "\<exists>j t res s1. w < length (runners s) \<and> runners s ! w = Some (j, t) \<and>
            probe t = Inr res \<and> settle t res s = Inr s1 \<and> s' = claim tasks w s1"
    then obtain j t res s1 where w: "w < length (runners s)"
      and st: "settle t res s = Inr s1" and s': "s' = claim tasks w s1" by blast
    from assms(2) w have "w < W" by (simp add: pool_inv_def)
    with pool_inv_claim[OF pool_inv_settle[OF st assms(2)] this] s' show ?thesis by simp
  qed
qed

lemma pool_inv_run:
  "run probe tasks order s = Inr s' \<Longrightarrow> pool_inv tasks n W s \<Longrightarrow> pool_inv tasks n W s'"
proof (induction order arbitrary: s)
  case Nil
  then show ?case by simp
next
  case (Cons w ws)
  from Cons.prems(1) obtain s1 where r: "resume probe tasks w s = Inr s1"
    and rest: "run probe tasks ws s1 = Inr s'"
    by (auto split: sum.splits)
  from Cons.IH[OF rest pool_inv_resume[OF r Cons.prems(2)]] show ?case .
qed

lemma buildTasks_portalIndex:
  "t \<in> set (buildTasks items) \<Longrightarrow> portalIndex t < length items"
  by (auto simp: buildTasks_def portalTasks_def)

lemma run_append:
  "run probe tasks (a @ b) s =
     (case run probe tasks a s of Inl e \<Rightarrow> Inl e | Inr s' \<Rightarrow> run probe tasks b s')"
  by (induction a arbitrary: s) (auto split: sum.splits)








lemma finished_cursor:
  assumes "pool_inv tasks n W s" "0 < W" "finished s"
  shows "length tasks \<le> cursor s"
proof (rule ccontr)
  assume "\<not> length tasks \<le> cursor s"
  with assms(1) have "\<forall>w<W. runners s ! w \<noteq> None" "length (runners s) = W"
    by (simp_all add: pool_inv_def)
  with assms(2) have "runners s ! 0 \<noteq> None" "runners s ! 0 \<in> set (runners s)" by simp_all
  with assms(3) show False by (simp add: finished_def list_all_iff)
qed

section \<open>The worker pool: reachable states\<close>

lemma pool_inv_reachable:
  assumes "run probe tasks order (launch tasks n W) = Inr s"
  shows "pool_inv tasks n W s"
proof -
  have "pool_inv tasks n W (launch tasks n W)"
    by (simp add: launch_eq pool_inv_launched)
  from pool_inv_run[OF assms this] show ?thesis .
qed


lemma keyedByUrl_distinct_urls:
  assumes "keyedByUrl m"
  shows "distinct (map v_url (Map_values m))"
proof -
  from assms have "\<forall>p\<in>set m. v_url (snd p) = fst p" by (auto simp: keyedByUrl_def)
  then have "map v_url (Map_values m) = map fst m" by (simp add: Map_values_def)
  with assms show ?thesis by (simp add: keyedByUrl_def)
qed

lemma resume_prefix:
  assumes "resume probe tasks w s = Inr s'" and "i < length (verifiedMap s)"
  shows "\<exists>ext. verifiedMap s' ! i = verifiedMap s ! i @ ext"
proof -
  from resume_cases[OF assms(1)] show ?thesis
  proof
    assume "s' = s \<and> (w \<ge> length (runners s) \<or> runners s ! w = None)"
    then show ?thesis by simp
  next
    assume "\<exists>j t res s1. w < length (runners s) \<and> runners s ! w = Some (j, t) \<and>
            probe t = Inr res \<and> settle t res s = Inr s1 \<and> s' = claim tasks w s1"
    then obtain t res s1 where st: "settle t res s = Inr s1" and s': "s' = claim tasks w s1"
      by blast
    from settle_prefix[OF st assms(2)] s' show ?thesis by (simp add: claim_verifiedMap)
  qed
qed

lemma resume_keyed:
  assumes "resume probe tasks w s = Inr s'" and "\<forall>m\<in>set (verifiedMap s). keyedByUrl m"
  shows "\<forall>m\<in>set (verifiedMap s'). keyedByUrl m"
proof -
  from resume_cases[OF assms(1)] show ?thesis
  proof
    assume "s' = s \<and> (w \<ge> length (runners s) \<or> runners s ! w = None)"
    with assms(2) show ?thesis by simp
  next
    assume "\<exists>j t res s1. w < length (runners s) \<and> runners s ! w = Some (j, t) \<and>
            probe t = Inr res \<and> settle t res s = Inr s1 \<and> s' = claim tasks w s1"
    then obtain t res s1 where st: "settle t res s = Inr s1" and s': "s' = claim tasks w s1"
      by blast
    from settle_keyed[OF st assms(2)] s' show ?thesis by (simp add: claim_verifiedMap)
  qed
qed

section \<open>Result rows: basic facts\<close>

lemma set_map_filter_iff:
  "y \<in> set (List.map_filter f xs) \<longleftrightarrow> (\<exists>x\<in>set xs. f x = Some y)"
  by (induction xs) (auto split: option.splits)

lemma outputRow_Some_iff:
  "(outputRow strict item expSet m \<noteq> None) = (m \<noteq> [] \<and> (strict \<longrightarrow> expSet \<noteq> {}))"
  by (cases m) (auto simp: outputRow_def Map_values_def Let_def)

lemma explicitByPortal_nth:
  "i < length items \<Longrightarrow>
     (explicitByPortal items ! i \<noteq> {}) = (\<exists>c\<in>set (sparqlCandidates (items ! i)). c_source c = Explicit)"
  by (auto simp: explicitByPortal_def filter_empty_conv)

lemma outputRow_fields:
  assumes "outputRow strict item expSet m = Some r"
  shows "r_portal r = raw item \<and> sparqlEndpointsVerifiedMeta r = Map_values m \<and>
         sparqlEndpointsVerified r = map v_url (Map_values m) \<and> sparqlVerified r \<and>
         chosenVerified (Map_values m) \<noteq> None \<and>
         sparqlEndpoint r = map_option v_url (chosenVerified (Map_values m)) \<and>
         Some (sparqlGuessed r) = map_option (\<lambda>v. v_source v \<noteq> Explicit) (chosenVerified (Map_values m)) \<and>
         Some (sparqlVerifiedBy r) = map_option v_mode (chosenVerified (Map_values m))"
  using assms
  by (cases "Map_values m")
     (auto simp: outputRow_def Let_def chosenVerified_def split: if_splits option.splits)

lemma chosenVerified_mem: "chosenVerified vs = Some v \<Longrightarrow> v \<in> set vs"
  by (auto simp: chosenVerified_def find_Some_iff split: option.splits list.splits)

lemma engine_resolved:
  assumes "verifyCandidatesByCandidate probe items concurrency strict order = Resolved out"
  shows "\<exists>W s. runnerCount concurrency = Inr W \<and>
               run probe (buildTasks items) order
                 (launch (buildTasks items) (length items) W) = Inr s \<and>
               finished s \<and> length (verifiedMap s) = length items \<and>
               out = assemble strict items (verifiedMap s)"
proof -
  from assms obtain W s where c: "runnerCount concurrency = Inr W"
    and r: "run probe (buildTasks items) order
               (launch (buildTasks items) (length items) W) = Inr s"
    and f: "finished s" and o: "out = assemble strict items (verifiedMap s)"
    by (auto simp: verifyCandidatesByCandidate_def Let_def split: sum.splits if_splits)
  from pool_inv_reachable[OF r] have "length (verifiedMap s) = length items"
    by (simp add: pool_inv_def)
  with c r f o show ?thesis by blast
qed

lemma derivedRow_fields:
  assumes "derivedRow strict p = Some r"
  shows "d_portal r = raw p \<and> d_sparqlCandidates r = sparqlCandidates p \<and>
         sparqlCandidates p \<noteq> [] \<and>
         (\<exists>c. choosePreferred (sparqlCandidates p) = Some c \<and> c \<in> set (sparqlCandidates p) \<and>
              d_sparqlEndpoint r = Some (c_url c) \<and>
              d_sparqlGuessed r = Some (c_source c \<noteq> Explicit))"
proof -
  from assms have ne: "sparqlCandidates p \<noteq> []" by (auto simp: derivedRow_def split: if_splits)
  then obtain c where c: "choosePreferred (sparqlCandidates p) = Some c"
    by (cases "choosePreferred (sparqlCandidates p)")
       (auto simp: choosePreferred_def split: option.splits list.splits)
  then have "c \<in> set (sparqlCandidates p)"
    by (auto simp: choosePreferred_def find_Some_iff split: option.splits list.splits)
  with assms ne c show ?thesis
    by (auto simp: derivedRow_def Let_def split: if_splits)
qed

section \<open>Independence of the completion order: lemmas\<close>

lemma settle_set:
  assumes "settle t res s = Inr s1" and "i < length (verifiedMap s)"
  shows "set (verifiedMap s1 ! i) =
         set (verifiedMap s ! i) \<union>
         (if ok res \<and> portalIndex t = i \<and> \<not> Map_has (verifiedMap s ! i) (t_url t)
          then {(t_url t, \<lparr>v_url = t_url t, v_source = t_source t, v_mode = mode res\<rparr>)} else {})"
  using assms
  by (auto simp: settle_def Let_def Map_set_absent nth_list_update split: if_splits)

lemma held_claim:
  assumes inv: "pool_inv tasks n W s" and w: "w < W" and r: "runners s ! w = Some (j, t)"
  shows "held (claim tasks w s) =
         (held s - {j}) \<union> (if cursor s < length tasks then {cursor s} else {})"
proof -
  from inv have lenr: "length (runners s) = W" by (simp add: pool_inv_def)
  have r': "\<And>w'. w' < W \<Longrightarrow> runners (claim tasks w s) ! w' =
      (if w' = w then (if cursor s < length tasks then Some (cursor s, tasks ! cursor s) else None)
       else runners s ! w')"
    using lenr w by (simp add: claim_runners nth_list_update)
  have len': "length (runners (claim tasks w s)) = W" using lenr by (simp add: claim_runners)
  have dist: "\<And>w' t'. w' < W \<Longrightarrow> runners s ! w' = Some (j, t') \<Longrightarrow> w' = w"
    using inv w r unfolding pool_inv_def by blast
  show ?thesis
  proof (rule set_eqI)
    fix x
    show "x \<in> held (claim tasks w s) \<longleftrightarrow>
          x \<in> (held s - {j}) \<union> (if cursor s < length tasks then {cursor s} else {})"
    proof
      assume "x \<in> held (claim tasks w s)"
      then obtain w' t' where w': "w' < W" and h: "runners (claim tasks w s) ! w' = Some (x, t')"
        using len' by (auto simp: held_def)
      show "x \<in> (held s - {j}) \<union> (if cursor s < length tasks then {cursor s} else {})"
      proof (cases "w' = w")
        case True
        with h r'[OF w'] show ?thesis by (auto split: if_splits)
      next
        case False
        with h r'[OF w'] have o: "runners s ! w' = Some (x, t')" by simp
        with w' lenr have "x \<in> held s" by (auto simp: held_def)
        moreover from o dist[OF w'] False have "x \<noteq> j" by auto
        ultimately show ?thesis by simp
      qed
    next
      assume a: "x \<in> (held s - {j}) \<union> (if cursor s < length tasks then {cursor s} else {})"
      show "x \<in> held (claim tasks w s)"
      proof (cases "x \<in> held s - {j}")
        case True
        then obtain w' t' where w': "w' < W" and o: "runners s ! w' = Some (x, t')" and "x \<noteq> j"
          using lenr by (auto simp: held_def)
        with r have "w' \<noteq> w" by auto
        with r'[OF w'] o have "runners (claim tasks w s) ! w' = Some (x, t')" by simp
        with w' len' show ?thesis by (auto simp: held_def)
      next
        case False
        with a have c: "cursor s < length tasks" "x = cursor s" by (auto split: if_splits)
        with r'[OF w] have "runners (claim tasks w s) ! w = Some (x, tasks ! cursor s)" by simp
        with w len' show ?thesis by (auto simp: held_def)
      qed
    qed
  qed
qed

lemma settled_claim:
  assumes inv: "pool_inv tasks n W s" and w: "w < W" and r: "runners s ! w = Some (j, t)"
  shows "settled tasks (claim tasks w s) = insert j (settled tasks s)"
proof -
  from inv w r have j: "j < cursor s" "j < length tasks" unfolding pool_inv_def by blast+
  from inv w r have jh: "j \<in> held s" by (auto simp: held_def pool_inv_def)
  have hs: "\<And>x. x \<in> held s \<Longrightarrow> x < cursor s"
    using inv unfolding held_def pool_inv_def by auto
  have hc: "held (claim tasks w s) =
         (held s - {j}) \<union> (if cursor s < length tasks then {cursor s} else {})"
    by (rule held_claim[OF inv w r])
  show ?thesis
  proof (rule set_eqI)
    fix x
    show "x \<in> settled tasks (claim tasks w s) \<longleftrightarrow> x \<in> insert j (settled tasks s)"
    proof (cases "x = j")
      case True
      with j hc show ?thesis by (simp add: settled_def claim_cursor)
    next
      case xj: False
      show ?thesis
      proof (cases "x = cursor s")
        case True
        with xj hc show ?thesis by (simp add: settled_def claim_cursor)
      next
        case False
        with xj hc show ?thesis by (simp add: settled_def claim_cursor less_Suc_eq)
      qed
    qed
  qed
qed

lemma expected_insert:
  "expected p tasks (insert j J) i =
     expected p tasks J i \<union>
     (if portalIndex (tasks ! j) = i \<and> ok (p (tasks ! j)) then {entryOf p (tasks ! j)} else {})"
  by (auto simp: expected_def)

lemma verified_inv_resume:
  assumes r: "resume (\<lambda>t. Inr (p t)) tasks w s = Inr s'"
    and inv: "pool_inv tasks n W s" and vinv: "verified_inv p tasks s"
    and idx: "\<forall>t\<in>set tasks. portalIndex t < n"
    and same: "same_url_same_task tasks"
  shows "verified_inv p tasks s'"
proof -
  from resume_cases[OF r] show ?thesis
  proof
    assume "s' = s \<and> (w \<ge> length (runners s) \<or> runners s ! w = None)"
    with vinv show ?thesis by simp
  next
    assume "\<exists>j t res s1. w < length (runners s) \<and> runners s ! w = Some (j, t) \<and>
            Inr (p t) = Inr res \<and> settle t res s = Inr s1 \<and> s' = claim tasks w s1"
    then obtain j t s1 where w: "w < length (runners s)" and rw: "runners s ! w = Some (j, t)"
      and st: "settle t (p t) s = Inr s1" and s': "s' = claim tasks w s1" by auto
    from inv w have wW: "w < W" by (simp add: pool_inv_def)
    from inv wW rw have j: "j < cursor s" "j < length tasks" and t: "t = tasks ! j"
      unfolding pool_inv_def by blast+
    from settle_fields[OF st] have f: "cursor s1 = cursor s" "runners s1 = runners s"
      "length (verifiedMap s1) = length (verifiedMap s)" by simp_all
    from pool_inv_settle[OF st inv] have inv1: "pool_inv tasks n W s1" .
    from f rw have rw1: "runners s1 ! w = Some (j, t)" by simp
    have held1: "held s1 = held s" using f by (simp add: held_def)
    have set1: "settled tasks s1 = settled tasks s" using f held1 by (simp add: settled_def)
    have sett: "settled tasks s' = insert j (settled tasks s)"
      using settled_claim[OF inv1 wW rw1] s' set1 by simp
    show ?thesis unfolding verified_inv_def
    proof (intro allI impI)
      fix i assume "i < length (verifiedMap s')"
      with s' f have i: "i < length (verifiedMap s)" by (simp add: claim_verifiedMap)
      from vinv i have old: "set (verifiedMap s ! i) = expected p tasks (settled tasks s) i"
        by (simp add: verified_inv_def)
      have e: "(t_url t, \<lparr>v_url = t_url t, v_source = t_source t, v_mode = mode (p t)\<rparr>) = entryOf p t"
        by (simp add: entryOf_def)
      have has: "Map_has (verifiedMap s ! i) (t_url t) \<Longrightarrow> portalIndex t = i \<Longrightarrow>
                 entryOf p t \<in> set (verifiedMap s ! i)"
      proof -
        assume h: "Map_has (verifiedMap s ! i) (t_url t)" and pi: "portalIndex t = i"
        then obtain v where "(t_url t, v) \<in> set (verifiedMap s ! i)"
          by (auto simp: Map_has_def)
        with old obtain j' where j': "j' \<in> settled tasks s" "portalIndex (tasks ! j') = i"
          and eq: "(t_url t, v) = entryOf p (tasks ! j')"
          by (auto simp: expected_def)
        from j' have "j' < length tasks" by (simp add: settled_def)
        moreover from eq have "t_url (tasks ! j') = t_url t" by (simp add: entryOf_def)
        ultimately have "tasks ! j' = tasks ! j"
          using same j j'(2) pi t unfolding same_url_same_task_def by auto
        with eq t have "(t_url t, v) = entryOf p t" by simp
        with \<open>(t_url t, v) \<in> set (verifiedMap s ! i)\<close> show ?thesis by simp
      qed
      have "set (verifiedMap s' ! i) = set (verifiedMap s1 ! i)"
        using s' by (simp add: claim_verifiedMap)
      also have "\<dots> = set (verifiedMap s ! i) \<union>
         (if ok (p t) \<and> portalIndex t = i \<and> \<not> Map_has (verifiedMap s ! i) (t_url t)
          then {entryOf p t} else {})"
        using settle_set[OF st i] e by simp
      also have "\<dots> = set (verifiedMap s ! i) \<union>
         (if portalIndex t = i \<and> ok (p t) then {entryOf p t} else {})"
        using has by auto
      also have "\<dots> = expected p tasks (settled tasks s') i"
        using old sett t by (simp add: expected_insert)
      finally show "set (verifiedMap s' ! i) = expected p tasks (settled tasks s') i" .
    qed
  qed
qed

lemma verified_inv_run:
  assumes idx: "\<forall>t\<in>set tasks. portalIndex t < n" and same: "same_url_same_task tasks"
  shows "run (\<lambda>t. Inr (p t)) tasks order s = Inr s' \<Longrightarrow> pool_inv tasks n W s \<Longrightarrow>
         verified_inv p tasks s \<Longrightarrow> verified_inv p tasks s'"
proof (induction order arbitrary: s)
  case Nil
  then show ?case by simp
next
  case (Cons w ws)
  from Cons.prems(1) obtain s1 where r: "resume (\<lambda>t. Inr (p t)) tasks w s = Inr s1"
    and rest: "run (\<lambda>t. Inr (p t)) tasks ws s1 = Inr s'"
    by (auto split: sum.splits)
  from Cons.IH[OF rest pool_inv_resume[OF r Cons.prems(2)]
      verified_inv_resume[OF r Cons.prems(2) Cons.prems(3) idx same]]
  show ?case .
qed

lemma verified_inv_launched:
  "verified_inv p tasks (launched tasks n W W)"
proof -
  let ?L = "launched tasks n W W"
  have "\<And>x. x < W \<Longrightarrow> x < length tasks \<Longrightarrow> x \<in> held ?L"
  proof -
    fix x assume "x < W" "x < length tasks"
    then have "x < length (runners ?L)" "runners ?L ! x = Some (x, tasks ! x)"
      by (simp_all add: launched_def)
    then show "x \<in> held ?L" unfolding held_def by blast
  qed
  moreover have "cursor ?L = W" by (simp add: launched_def)
  ultimately have e: "settled tasks ?L = {}" unfolding settled_def by auto
  have "\<forall>i<length (verifiedMap ?L). verifiedMap ?L ! i = []" by (simp add: launched_def)
  with e show ?thesis
    by (simp add: verified_inv_def expected_def)
qed

lemma finished_settled:
  assumes inv: "pool_inv tasks n W s" and W: "0 < W" and fin: "finished s"
  shows "settled tasks s = {0..<length tasks}"
proof -
  have "held s = {}"
  proof (rule ccontr)
    assume "held s \<noteq> {}"
    then obtain j w t where "w < length (runners s)" "runners s ! w = Some (j, t)"
      by (auto simp: held_def)
    then have "Some (j, t) \<in> set (runners s)" by (metis nth_mem)
    with fin show False by (auto simp: finished_def list_all_iff)
  qed
  with finished_cursor[OF inv W fin] show ?thesis by (auto simp: settled_def)
qed

lemma final_verified:
  assumes r: "run (\<lambda>t. Inr (p t)) tasks order (launch tasks n W) = Inr s"
    and W: "0 < W"
    and fin: "finished s"
    and idx: "\<forall>t\<in>set tasks. portalIndex t < n" and same: "same_url_same_task tasks"
    and i: "i < n"
  shows "set (verifiedMap s ! i) = expected p tasks {0..<length tasks} i"
proof -
  have l: "launch tasks n W = launched tasks n W W" by (rule launch_eq)
  from pool_inv_reachable[OF r] have inv: "pool_inv tasks n W s" .
  from verified_inv_run[OF idx same r[unfolded l] pool_inv_launched verified_inv_launched]
  have "verified_inv p tasks s" .
  moreover from inv i have "i < length (verifiedMap s)" by (simp add: pool_inv_def)
  ultimately show ?thesis using finished_settled[OF inv W fin] by (simp add: verified_inv_def)
qed

lemma buildTasks_mem:
  "t \<in> set (buildTasks items) \<longleftrightarrow>
     (\<exists>i<length items. \<exists>c\<in>set (sparqlCandidates (items ! i)).
        t = \<lparr>portalIndex = i, t_url = c_url c, t_source = c_source c\<rparr>)"
  by (auto simp: buildTasks_def portalTasks_def)

lemma buildTasks_same_url:
  assumes "\<forall>p\<in>set items. distinct (map c_url (sparqlCandidates p))"
  shows "same_url_same_task (buildTasks items)"
  unfolding same_url_same_task_def
proof (intro allI impI)
  fix a b
  assume a: "a < length (buildTasks items)" and b: "b < length (buildTasks items)"
    and e: "portalIndex (buildTasks items ! a) = portalIndex (buildTasks items ! b) \<and>
            t_url (buildTasks items ! a) = t_url (buildTasks items ! b)"
  let ?ta = "buildTasks items ! a" and ?tb = "buildTasks items ! b"
  from a have "?ta \<in> set (buildTasks items)" by simp
  then obtain i c where i: "i < length items" and c: "c \<in> set (sparqlCandidates (items ! i))"
    and ta: "?ta = \<lparr>portalIndex = i, t_url = c_url c, t_source = c_source c\<rparr>"
    unfolding buildTasks_mem by blast
  from b have "?tb \<in> set (buildTasks items)" by simp
  then obtain i' c' where c': "c' \<in> set (sparqlCandidates (items ! i'))"
    and tb: "?tb = \<lparr>portalIndex = i', t_url = c_url c', t_source = c_source c'\<rparr>"
    unfolding buildTasks_mem by blast
  from e ta tb have ii: "i' = i" and uu: "c_url c = c_url c'" by simp_all
  from assms i have "distinct (map c_url (sparqlCandidates (items ! i)))" by simp
  then have "inj_on c_url (set (sparqlCandidates (items ! i)))" by (simp add: distinct_map)
  with c c' ii uu have "c = c'" by (auto dest: inj_onD)
  with ta tb ii show "?ta = ?tb" by simp
qed

lemma map_filter_rel:
  "\<forall>x\<in>set xs. rel_option R (f x) (g x) \<Longrightarrow>
     list_all2 R (List.map_filter f xs) (List.map_filter g xs)"
proof (induction xs)
  case Nil
  then show ?case by simp
next
  case (Cons x xs)
  then have "rel_option R (f x) (g x)" and "list_all2 R (List.map_filter f xs) (List.map_filter g xs)"
    by simp_all
  then show ?case by (cases "f x"; cases "g x") simp_all
qed

lemma chosenVerified_None: "(chosenVerified vs = None) = (vs = [])"
  by (auto simp: chosenVerified_def split: option.splits list.splits)

lemma chosenVerified_explicit:
  assumes "chosenVerified vs = Some v"
  shows "(v_source v = Explicit) = (\<exists>x\<in>set vs. v_source x = Explicit)"
proof (cases "find (\<lambda>v. v_source v = Explicit) vs")
  case None
  with assms have "v \<in> set vs" "\<forall>x\<in>set vs. v_source x \<noteq> Explicit"
    by (auto simp: chosenVerified_def find_None_iff split: list.splits)
  then show ?thesis by auto
next
  case (Some e)
  with assms have "v = e" by (simp add: chosenVerified_def)
  with Some have "v_source v = Explicit" "v \<in> set vs" by (auto simp: find_Some_iff)
  then show ?thesis by auto
qed

lemma chosenVerified_same:
  assumes s: "set vs1 = set vs2" and d1: "distinct vs1" and d2: "distinct vs2"
    and c1: "chosenVerified vs1 = Some v1" and c2: "chosenVerified vs2 = Some v2"
    and u: "length (filter (\<lambda>v. v_source v = Explicit) vs1) = 1 \<or> length vs1 = 1"
  shows "v1 = v2"
proof -
  from chosenVerified_mem[OF c1] chosenVerified_mem[OF c2] s
  have m: "v1 \<in> set vs1" "v2 \<in> set vs1" by simp_all
  from u show ?thesis
  proof
    assume "length (filter (\<lambda>v. v_source v = Explicit) vs1) = 1"
    then obtain e where e: "filter (\<lambda>v. v_source v = Explicit) vs1 = [e]"
      by (cases "filter (\<lambda>v. v_source v = Explicit) vs1") auto
    then have "e \<in> set (filter (\<lambda>v. v_source v = Explicit) vs1)" by simp
    then have ex: "\<exists>x\<in>set vs1. v_source x = Explicit" by auto
    with chosenVerified_explicit[OF c1] have "v_source v1 = Explicit" by simp
    with m have "v1 \<in> set (filter (\<lambda>v. v_source v = Explicit) vs1)" by simp
    with e have 1: "v1 = e" by simp
    from ex s chosenVerified_explicit[OF c2] have "v_source v2 = Explicit" by simp
    with m have "v2 \<in> set (filter (\<lambda>v. v_source v = Explicit) vs1)" by simp
    with e have "v2 = e" by simp
    with 1 show ?thesis by simp
  next
    assume "length vs1 = 1"
    then obtain x where "vs1 = [x]" by (cases vs1) auto
    with m show ?thesis by simp
  qed
qed

lemma keyedByUrl_distinct_values: "keyedByUrl m \<Longrightarrow> distinct (Map_values m)"
  using keyedByUrl_distinct_urls[of m] by (simp add: distinct_map)

lemma outputRow_None_iff:
  "(outputRow strict item expSet m = None) = (m = [] \<or> strict \<and> expSet = {})"
  using outputRow_Some_iff[of strict item expSet m] by blast

lemma outputRow_same:
  assumes s: "set m1 = set m2" and k1: "keyedByUrl m1" and k2: "keyedByUrl m2"
  shows "rel_option same_row (outputRow strict item expSet m1) (outputRow strict item expSet m2)"
proof (cases "outputRow strict item expSet m1")
  case None
  then have "m1 = [] \<or> strict \<and> expSet = {}"
    unfolding outputRow_None_iff .
  with s have "m2 = [] \<or> strict \<and> expSet = {}" by auto
  then have "outputRow strict item expSet m2 = None"
    unfolding outputRow_None_iff .
  with None show ?thesis by simp
next
  case (Some r1)
  then have "\<not> (m1 = [] \<or> strict \<and> expSet = {})"
    using outputRow_None_iff[of strict item expSet m1] by simp
  with s have "\<not> (m2 = [] \<or> strict \<and> expSet = {})" by auto
  then have "outputRow strict item expSet m2 \<noteq> None"
    unfolding outputRow_None_iff .
  then obtain r2 where r2: "outputRow strict item expSet m2 = Some r2" by blast
  let ?v1 = "Map_values m1" and ?v2 = "Map_values m2"
  from s have sv: "set ?v1 = set ?v2" by (simp add: Map_values_def)
  from outputRow_fields[OF Some] obtain c1 where c1: "chosenVerified ?v1 = Some c1"
    and f1: "r_portal r1 = raw item" "sparqlEndpointsVerifiedMeta r1 = ?v1"
      "sparqlEndpointsVerified r1 = map v_url ?v1" "sparqlVerified r1"
      "sparqlEndpoint r1 = Some (v_url c1)" "sparqlGuessed r1 = (v_source c1 \<noteq> Explicit)"
      "sparqlVerifiedBy r1 = v_mode c1"
    by auto
  from outputRow_fields[OF r2] obtain c2 where c2: "chosenVerified ?v2 = Some c2"
    and f2: "r_portal r2 = raw item" "sparqlEndpointsVerifiedMeta r2 = ?v2"
      "sparqlEndpointsVerified r2 = map v_url ?v2" "sparqlVerified r2"
      "sparqlEndpoint r2 = Some (v_url c2)" "sparqlGuessed r2 = (v_source c2 \<noteq> Explicit)"
      "sparqlVerifiedBy r2 = v_mode c2"
    by auto
  from chosenVerified_explicit[OF c1] chosenVerified_explicit[OF c2] sv
  have g: "(v_source c1 = Explicit) = (v_source c2 = Explicit)" by simp
  have u: "length (filter (\<lambda>v. v_source v = Explicit) ?v1) = 1 \<or> length ?v1 = 1 \<Longrightarrow> c1 = c2"
    using chosenVerified_same[OF sv keyedByUrl_distinct_values[OF k1]
        keyedByUrl_distinct_values[OF k2] c1 c2] by simp
  have "same_row r1 r2"
    unfolding same_row_def using f1 f2 sv g u by auto
  with Some r2 show ?thesis by simp
qed

lemma schedule_independent_rows:
  assumes d: "\<forall>p\<in>set items. distinct (map c_url (sparqlCandidates p))"
    and r1: "verifyCandidatesByCandidate (\<lambda>t. Inr (p t)) items c1 strict o1 = Resolved out1"
    and r2: "verifyCandidatesByCandidate (\<lambda>t. Inr (p t)) items c2 strict o2 = Resolved out2"
    and n1: "c1 \<noteq> NaN" and n2: "c2 \<noteq> NaN"
  shows "list_all2 same_row out1 out2"
proof -
  let ?tasks = "buildTasks items"
  let ?n = "length items"
  from engine_resolved[OF r1] obtain Wa and s1 :: pool
    where ca: "runnerCount c1 = Inr Wa"
      and run1: "run (\<lambda>t. Inr (p t)) ?tasks o1 (launch ?tasks ?n Wa) = Inr s1"
      and fin1: "finished s1" and len1: "length (verifiedMap s1) = ?n"
      and out1: "out1 = assemble strict items (verifiedMap s1)" by auto
  from engine_resolved[OF r2] obtain Wb and s2 :: pool
    where cb: "runnerCount c2 = Inr Wb"
      and run2: "run (\<lambda>t. Inr (p t)) ?tasks o2 (launch ?tasks ?n Wb) = Inr s2"
      and fin2: "finished s2" and len2: "length (verifiedMap s2) = ?n"
      and out2: "out2 = assemble strict items (verifiedMap s2)" by auto
  note Wa = runnerCount_pos[OF ca n1]
  note Wb = runnerCount_pos[OF cb n2]
  have idx: "\<forall>t\<in>set ?tasks. portalIndex t < ?n" by (simp add: buildTasks_portalIndex)
  have same: "same_url_same_task ?tasks" by (rule buildTasks_same_url[OF d])
  from pool_inv_reachable[OF run1] have k1: "\<forall>m\<in>set (verifiedMap s1). keyedByUrl m"
    by (simp add: pool_inv_def)
  from pool_inv_reachable[OF run2] have k2: "\<forall>m\<in>set (verifiedMap s2). keyedByUrl m"
    by (simp add: pool_inv_def)
  have "\<forall>i\<in>set [0..<?n]. rel_option same_row
          (outputRow strict (items ! i) (explicitByPortal items ! i) (verifiedMap s1 ! i))
          (outputRow strict (items ! i) (explicitByPortal items ! i) (verifiedMap s2 ! i))"
  proof
    fix i assume "i \<in> set [0..<?n]"
    then have i: "i < ?n" by simp
    from final_verified[OF run1 Wa fin1 idx same i] final_verified[OF run2 Wb fin2 idx same i]
    have e: "set (verifiedMap s1 ! i) = set (verifiedMap s2 ! i)" by simp
    from i len1 k1 have a: "keyedByUrl (verifiedMap s1 ! i)" by simp
    from i len2 k2 have b: "keyedByUrl (verifiedMap s2 ! i)" by simp
    from outputRow_same[OF e a b]
    show "rel_option same_row
          (outputRow strict (items ! i) (explicitByPortal items ! i) (verifiedMap s1 ! i))
          (outputRow strict (items ! i) (explicitByPortal items ! i) (verifiedMap s2 ! i))" .
  qed
  from map_filter_rel[OF this] out1 out2 show ?thesis by (simp add: assemble_def)
qed

section \<open>Exceptions in a worker: lemmas\<close>

lemma resume_fault:
  assumes "w < length (runners s)" "runners s ! w = Some (j, t)" "probe t = Inl e"
  shows "resume probe tasks w s = Inl e"
  using assms by (simp add: resume_def)

lemma settle_no_fault:
  assumes "portalIndex t < length (verifiedMap s)"
  shows "\<exists>s1. settle t res s = Inr s1"
  using assms by (simp add: settle_def Let_def)

lemma resume_no_fault:
  assumes inv: "pool_inv tasks n W s"
    and probe: "\<forall>t\<in>set tasks. \<exists>res. probe t = Inr res"
    and idx: "\<forall>t\<in>set tasks. portalIndex t < n"
  shows "\<exists>s'. resume probe tasks w s = Inr s'"
proof (cases "w < length (runners s)")
  case False
  then show ?thesis by (simp add: resume_def)
next
  case w: True
  show ?thesis
  proof (cases "runners s ! w")
    case None
    with w show ?thesis by (simp add: resume_def)
  next
    case (Some jt)
    obtain j t where jt: "jt = (j, t)" by (cases jt)
    from inv w Some jt have "j < length tasks" "t = tasks ! j"
      unfolding pool_inv_def by auto
    then have tin: "t \<in> set tasks" by simp
    with probe obtain res where res: "probe t = Inr res" by blast
    from tin idx inv have "portalIndex t < length (verifiedMap s)" by (simp add: pool_inv_def)
    from settle_no_fault[OF this] obtain s1 where "settle t res s = Inr s1" by blast
    with w Some jt res show ?thesis by (simp add: resume_def)
  qed
qed

lemma run_no_fault:
  assumes probe: "\<forall>t\<in>set tasks. \<exists>res. probe t = Inr res"
    and idx: "\<forall>t\<in>set tasks. portalIndex t < n"
  shows "pool_inv tasks n W s \<Longrightarrow> \<exists>s'. run probe tasks order s = Inr s'"
proof (induction order arbitrary: s)
  case Nil
  then show ?case by simp
next
  case (Cons w ws)
  from resume_no_fault[OF Cons.prems probe idx] obtain s1
    where r: "resume probe tasks w s = Inr s1" by blast
  from Cons.IH[OF pool_inv_resume[OF r Cons.prems]] r show ?case by simp
qed

section \<open>The shared cursor and the verified maps\<close>

text \<open>
  When the concurrency is \<^verbatim>\<open>NaN\<close>, \<^verbatim>\<open>Math.max(1, concurrency)\<close> is \<^verbatim>\<open>NaN\<close> and the array
  of workers is empty: no task is claimed, \<^verbatim>\<open>Promise.all\<close> of no promise is fulfilled and
  the engine returns no row, whatever the portals and the probes are.
\<close>

lemma no_worker_for_NaN:
  "runnerCount NaN = Inr 0 \<and>
   claimed (launch (buildTasks items) (length items) 0) = [] \<and>
   verifyCandidatesByCandidate probe items NaN strict order = Resolved []"
proof -
  let ?L = "launch (buildTasks items) (length items) 0"
  have c: "runnerCount NaN = Inr 0"
    by (simp add: runnerCount_def Math_max_def ToLength_def)
  have L: "?L = \<lparr>cursor = 0, verifiedMap = replicate (length items) [], runners = [],
                  claimed = []\<rparr>"
    by (simp add: launch_def)
  have r: "run probe (buildTasks items) order ?L = Inr ?L"
  proof (induction order)
    case Nil
    show ?case by simp
  next
    case (Cons w ws)
    have "resume probe (buildTasks items) w ?L = Inr ?L" by (simp add: resume_def L)
    with Cons show ?case by simp
  qed
  have f: "finished ?L" by (simp add: finished_def L)
  have "\<forall>i\<in>set [0..<length items].
          outputRow strict (items ! i) (explicitByPortal items ! i) (verifiedMap ?L ! i) = None"
    by (simp add: L outputRow_def Map_values_def)
  then have "assemble strict items (verifiedMap ?L) = []"
    unfolding assemble_def List.map_filter_def by (simp add: filter_empty_conv)
  with c r f have "verifyCandidatesByCandidate probe items NaN strict order = Resolved []"
    by (simp add: verifyCandidatesByCandidate_def Let_def)
  with c L show ?thesis by simp
qed




text \<open>
  C7. In every state the pool reaches, with any number \<open>W\<close> of workers, each inner map
  of \<^verbatim>\<open>verifiedMap\<close> holds at most one entry per URL. A worker step keeps this, and it only appends to an inner map, so
  an entry once inserted stays as it is, mode included. Recording a successful result
  for a task again, with whatever mode, leaves the pool unchanged.
\<close>

theorem verified_map_one_entry_per_url:
  "(run probe (buildTasks items) order
      (launch (buildTasks items) (length items) W) = Inr s \<longrightarrow>
      (\<forall>m\<in>set (verifiedMap s). distinct (map v_url (Map_values m)))) \<and>
   ((\<forall>m\<in>set (verifiedMap sa). keyedByUrl m) \<and> resume probe tasks w sa = Inr sb \<longrightarrow>
      (\<forall>m\<in>set (verifiedMap sb). keyedByUrl m \<and> distinct (map v_url (Map_values m))) \<and>
      (\<forall>i<length (verifiedMap sa). \<exists>ext. verifiedMap sb ! i = verifiedMap sa ! i @ ext)) \<and>
   (ok res \<and> settle t res sc = Inr sd \<longrightarrow> settle t res' sd = Inr sd)"
proof (intro conjI impI)
  assume "run probe (buildTasks items) order
      (launch (buildTasks items) (length items) W) = Inr s"
  from pool_inv_reachable[OF this] have "\<forall>m\<in>set (verifiedMap s). keyedByUrl m"
    by (simp add: pool_inv_def)
  then show "\<forall>m\<in>set (verifiedMap s). distinct (map v_url (Map_values m))"
    by (simp add: keyedByUrl_distinct_urls)
next
  assume a: "(\<forall>m\<in>set (verifiedMap sa). keyedByUrl m) \<and> resume probe tasks w sa = Inr sb"
  then have "\<forall>m\<in>set (verifiedMap sb). keyedByUrl m" using resume_keyed by blast
  then show "\<forall>m\<in>set (verifiedMap sb). keyedByUrl m \<and> distinct (map v_url (Map_values m))"
    by (simp add: keyedByUrl_distinct_urls)
next
  assume a: "(\<forall>m\<in>set (verifiedMap sa). keyedByUrl m) \<and> resume probe tasks w sa = Inr sb"
  then show "\<forall>i<length (verifiedMap sa). \<exists>ext. verifiedMap sb ! i = verifiedMap sa ! i @ ext"
    using resume_prefix by blast
next
  assume "ok res \<and> settle t res sc = Inr sd"
  then show "settle t res' sd = Inr sd" using settle_idem by blast
qed

theorem verified_map_one_entry_per_url_witness:
  "(\<exists>s. run always_ask_get (buildTasks two_guessed) [1, 0]
           (launch (buildTasks two_guessed) (length two_guessed) 2) = Inr s \<and>
        (\<forall>m\<in>set (verifiedMap s). distinct (map v_url (Map_values m)))) \<and>
   (\<exists>s1. resume always_ask_get
            [\<lparr>portalIndex = 0, t_url = ''https://x.org/sparql'', t_source = Guessed\<rparr>] 0
            \<lparr>cursor = 1,
             verifiedMap = [[(''https://x.org/sparql'',
               \<lparr>v_url = ''https://x.org/sparql'', v_source = Explicit, v_mode = Some ask_post\<rparr>)]],
             runners = [Some (0, \<lparr>portalIndex = 0, t_url = ''https://x.org/sparql'', t_source = Guessed\<rparr>)],
             claimed = [(0, 0)]\<rparr> = Inr s1 \<and>
          (\<forall>m\<in>set (verifiedMap s1). distinct (map v_url (Map_values m))) \<and>
          (\<exists>ext. verifiedMap s1 ! 0 = [(''https://x.org/sparql'',
               \<lparr>v_url = ''https://x.org/sparql'', v_source = Explicit, v_mode = Some ask_post\<rparr>)] @ ext)) \<and>
   (\<exists>s3. settle \<lparr>portalIndex = 0, t_url = ''https://x.org/sparql'', t_source = Explicit\<rparr>
            \<lparr>ok = True, mode = Some ask_get\<rparr>
            \<lparr>cursor = 1, verifiedMap = [[]], runners = [], claimed = []\<rparr> = Inr s3 \<and>
          length (verifiedMap s3 ! 0) = 1 \<and>
          settle \<lparr>portalIndex = 0, t_url = ''https://x.org/sparql'', t_source = Explicit\<rparr>
            \<lparr>ok = True, mode = Some ask_get\<rparr> s3 = Inr s3)"
proof -
  let ?fin = "\<lparr>cursor = 4,
      verifiedMap =
        [[(''https://x.org/query'',
           \<lparr>v_url = ''https://x.org/query'', v_source = Guessed, v_mode = Some ask_get\<rparr>),
          (''https://x.org/sparql'',
           \<lparr>v_url = ''https://x.org/sparql'', v_source = Guessed, v_mode = Some ask_get\<rparr>)]],
      runners = [None, None], claimed = [(0, 0), (1, 1)]\<rparr>"
  let ?e = "(''https://x.org/sparql'',
               \<lparr>v_url = ''https://x.org/sparql'', v_source = Explicit, v_mode = Some ask_post\<rparr>)"
  let ?t = "\<lparr>portalIndex = 0, t_url = ''https://x.org/sparql'', t_source = Guessed\<rparr>"
  let ?pa = "\<lparr>cursor = 1, verifiedMap = [[?e]], runners = [Some (0, ?t)], claimed = [(0, 0)]\<rparr>"
  let ?pb = "\<lparr>cursor = 2, verifiedMap = [[?e]], runners = [None], claimed = [(0, 0)]\<rparr>"
  let ?t2 = "\<lparr>portalIndex = 0, t_url = ''https://x.org/sparql'', t_source = Explicit\<rparr>"
  let ?res = "\<lparr>ok = True, mode = Some ask_get\<rparr>"
  let ?pc = "\<lparr>cursor = 1, verifiedMap = [[]], runners = [], claimed = []\<rparr>"
  let ?pd = "\<lparr>cursor = 1, verifiedMap = [[(''https://x.org/sparql'',
               \<lparr>v_url = ''https://x.org/sparql'', v_source = Explicit, v_mode = Some ask_get\<rparr>)]],
             runners = [], claimed = []\<rparr>"
  have h: "run always_ask_get (buildTasks two_guessed) [1, 0]
           (launch (buildTasks two_guessed) (length two_guessed) 2) = Inr ?fin"
    by code_simp
  have k: "\<forall>m\<in>set (verifiedMap ?pa). keyedByUrl m" by (simp add: keyedByUrl_def)
  have r: "resume always_ask_get [?t] 0 ?pa = Inr ?pb" by code_simp
  have o: "ok ?res" by simp
  have st: "settle ?t2 ?res ?pc = Inr ?pd" by code_simp
  note inst = verified_map_one_entry_per_url
    [where probe = always_ask_get and items = two_guessed and order = "[1, 0]"
       and W = 2 and s = ?fin and sa = ?pa and w = 0 and tasks = "[?t]"
       and sb = ?pb and res = ?res and t = ?t2 and sc = ?pc and sd = ?pd
       and res' = ?res]
  from inst h k r o st show ?thesis by simp
qed


section \<open>Strict mode and the chosen endpoint\<close>

text \<open>
  C5. Under \<^verbatim>\<open>--check --strict\<close> the rows are assembled from the final verified maps,
  and a portal yields a row exactly when its verified map is not empty and its candidate
  list holds a candidate of source explicit, whether or not that candidate is among the
  verified ones. Hence every row belongs to a portal with an explicit candidate, and a
  portal with guessed candidates only yields none.
\<close>

theorem strict_requires_explicit_candidate:
  assumes "verifyCandidatesByCandidate probe items concurrency True order = Resolved out"
  shows "\<exists>W s. runnerCount concurrency = Inr W \<and>
           run probe (buildTasks items) order
             (launch (buildTasks items) (length items) W) = Inr s \<and>
           length (verifiedMap s) = length items \<and>
           out = List.map_filter
                   (\<lambda>i. outputRow True (items ! i) (explicitByPortal items ! i) (verifiedMap s ! i))
                   [0..<length items] \<and>
           (\<forall>i<length items.
              (outputRow True (items ! i) (explicitByPortal items ! i) (verifiedMap s ! i) \<noteq> None) =
              (verifiedMap s ! i \<noteq> [] \<and>
               (\<exists>c\<in>set (sparqlCandidates (items ! i)). c_source c = Explicit))) \<and>
           (\<forall>r\<in>set out. \<exists>i<length items. r_portal r = raw (items ! i) \<and>
              (\<exists>c\<in>set (sparqlCandidates (items ! i)). c_source c = Explicit))"
proof -
  from engine_resolved[OF assms] obtain W and s :: pool
    where rc: "runnerCount concurrency = Inr W"
      and run: "run probe (buildTasks items) order
               (launch (buildTasks items) (length items) W) = Inr s"
      and len: "length (verifiedMap s) = length items"
      and out: "out = assemble True items (verifiedMap s)" by auto
  let ?vm = "verifiedMap s"
  let ?row = "\<lambda>i. outputRow True (items ! i) (explicitByPortal items ! i) (?vm ! i)"
  have iff: "\<forall>i<length items. (?row i \<noteq> None) =
      (?vm ! i \<noteq> [] \<and> (\<exists>c\<in>set (sparqlCandidates (items ! i)). c_source c = Explicit))"
  proof (intro allI impI)
    fix i assume i: "i < length items"
    show "(?row i \<noteq> None) =
      (?vm ! i \<noteq> [] \<and> (\<exists>c\<in>set (sparqlCandidates (items ! i)). c_source c = Explicit))"
      unfolding outputRow_Some_iff explicitByPortal_nth[OF i] by simp
  qed
  have mem: "\<forall>r\<in>set out. \<exists>i<length items. r_portal r = raw (items ! i) \<and>
              (\<exists>c\<in>set (sparqlCandidates (items ! i)). c_source c = Explicit)"
  proof
    fix r assume "r \<in> set out"
    with out obtain i where i: "i < length items" and r: "?row i = Some r"
      by (auto simp: assemble_def set_map_filter_iff)
    from outputRow_fields[OF r] have "r_portal r = raw (items ! i)" by simp
    moreover from r have "?row i \<noteq> None" by simp
    with iff i have "\<exists>c\<in>set (sparqlCandidates (items ! i)). c_source c = Explicit"
      by blast
    ultimately show "\<exists>i<length items. r_portal r = raw (items ! i) \<and>
              (\<exists>c\<in>set (sparqlCandidates (items ! i)). c_source c = Explicit)"
      using i by blast
  qed
  from rc run len out iff mem show ?thesis unfolding assemble_def by blast
qed

theorem strict_requires_explicit_candidate_witness:
  "verifyCandidatesByCandidate guessed_by_post mixed_portals (Finite 2) True [0, 1, 0] =
     Resolved
       [\<lparr>r_portal = 0, sparqlEndpoint = Some ''https://a.org/query'', sparqlGuessed = True,
         sparqlVerified = True, sparqlVerifiedBy = Some ask_post,
         sparqlEndpointsVerified = [''https://a.org/query''],
         sparqlEndpointsVerifiedMeta =
           [\<lparr>v_url = ''https://a.org/query'', v_source = Guessed, v_mode = Some ask_post\<rparr>]\<rparr>] \<and>
   (\<exists>s. run guessed_by_post (buildTasks mixed_portals) [0, 1, 0]
           (launch (buildTasks mixed_portals) (length mixed_portals) 2) = Inr s \<and>
        verifiedMap s ! 1 \<noteq> [] \<and>
        outputRow True (mixed_portals ! 1) (explicitByPortal mixed_portals ! 1)
          (verifiedMap s ! 1) = None)"
proof -
  let ?out = "[\<lparr>r_portal = 0, sparqlEndpoint = Some ''https://a.org/query'', sparqlGuessed = True,
         sparqlVerified = True, sparqlVerifiedBy = Some ask_post,
         sparqlEndpointsVerified = [''https://a.org/query''],
         sparqlEndpointsVerifiedMeta =
           [\<lparr>v_url = ''https://a.org/query'', v_source = Guessed, v_mode = Some ask_post\<rparr>]\<rparr>]"
  let ?fin = "\<lparr>cursor = 5,
      verifiedMap =
        [[(''https://a.org/query'',
           \<lparr>v_url = ''https://a.org/query'', v_source = Guessed, v_mode = Some ask_post\<rparr>)],
         [(''https://b.org/sparql'',
           \<lparr>v_url = ''https://b.org/sparql'', v_source = Guessed, v_mode = Some ask_post\<rparr>)]],
      runners = [None, None], claimed = [(0, 0), (1, 1), (0, 2)]\<rparr>"
  have h: "verifyCandidatesByCandidate guessed_by_post mixed_portals (Finite 2) True [0, 1, 0] = Resolved ?out"
    by code_simp
  have r: "run guessed_by_post (buildTasks mixed_portals) [0, 1, 0]
           (launch (buildTasks mixed_portals) (length mixed_portals) 2) = Inr ?fin"
    by code_simp
  have c: "runnerCount (Finite 2) = Inr 2" by code_simp
  from strict_requires_explicit_candidate[OF h] c r
  have iff: "\<forall>i<length mixed_portals.
      (outputRow True (mixed_portals ! i) (explicitByPortal mixed_portals ! i) (verifiedMap ?fin ! i) \<noteq> None) =
      (verifiedMap ?fin ! i \<noteq> [] \<and>
       (\<exists>c\<in>set (sparqlCandidates (mixed_portals ! i)). c_source c = Explicit))"
    by auto
  have n1: "\<not> (\<exists>c\<in>set (sparqlCandidates (mixed_portals ! 1)). c_source c = Explicit)"
    by (simp add: mixed_portals_def)
  have l: "(1::nat) < length mixed_portals" by (simp add: mixed_portals_def)
  from iff l n1
  have "outputRow True (mixed_portals ! 1) (explicitByPortal mixed_portals ! 1) (verifiedMap ?fin ! 1) = None"
    by blast
  moreover have "verifiedMap ?fin ! 1 \<noteq> []" by simp
  ultimately show ?thesis using h r by blast
qed

text \<open>
  C10. Every row of the derivation-only mode comes from a portal with a non-empty
  candidate list and carries the URL of one of these candidates as its endpoint; every
  row of the verification mode has a non-empty verified list and carries the URL of one
  of its verified entries. In neither mode is the endpoint \<^verbatim>\<open>null\<close>.
\<close>

theorem emitted_rows_have_endpoint:
  "(\<forall>r\<in>set (deriveOnly strict prepared).
       d_sparqlEndpoint r \<noteq> None \<and> d_sparqlCandidates r \<noteq> [] \<and>
       (\<exists>p\<in>set prepared. d_portal r = raw p \<and> d_sparqlCandidates r = sparqlCandidates p) \<and>
       (\<exists>c\<in>set (d_sparqlCandidates r). d_sparqlEndpoint r = Some (c_url c))) \<and>
   (verifyCandidatesByCandidate probe items concurrency strict order = Resolved out \<longrightarrow>
      (\<forall>r\<in>set out.
         sparqlEndpoint r \<noteq> None \<and> sparqlEndpointsVerifiedMeta r \<noteq> [] \<and>
         (\<exists>v\<in>set (sparqlEndpointsVerifiedMeta r). sparqlEndpoint r = Some (v_url v))))"
proof (intro conjI impI ballI)
  fix r assume "r \<in> set (deriveOnly strict prepared)"
  then obtain p where p: "p \<in> set prepared" and r: "derivedRow strict p = Some r"
    by (auto simp: deriveOnly_def set_map_filter_iff)
  from derivedRow_fields[OF r] p
  show "d_sparqlEndpoint r \<noteq> None" "d_sparqlCandidates r \<noteq> []"
    "\<exists>p\<in>set prepared. d_portal r = raw p \<and> d_sparqlCandidates r = sparqlCandidates p"
    "\<exists>c\<in>set (d_sparqlCandidates r). d_sparqlEndpoint r = Some (c_url c)"
    by auto
next
  fix r
  assume a: "verifyCandidatesByCandidate probe items concurrency strict order = Resolved out"
    and rin: "r \<in> set out"
  from engine_resolved[OF a] obtain s :: pool where out: "out = assemble strict items (verifiedMap s)"
    by auto
  with rin obtain i where
    r: "outputRow strict (items ! i) (explicitByPortal items ! i) (verifiedMap s ! i) = Some r"
    by (auto simp: assemble_def set_map_filter_iff)
  let ?vs = "Map_values (verifiedMap s ! i)"
  from outputRow_fields[OF r] obtain v where v: "chosenVerified ?vs = Some v"
    and e: "sparqlEndpoint r = Some (v_url v)" and m: "sparqlEndpointsVerifiedMeta r = ?vs"
    by auto
  from chosenVerified_mem[OF v] m have vin: "v \<in> set (sparqlEndpointsVerifiedMeta r)" by simp
  from e show "sparqlEndpoint r \<noteq> None" by simp
  from vin show "sparqlEndpointsVerifiedMeta r \<noteq> []" by auto
  from vin e show "\<exists>v\<in>set (sparqlEndpointsVerifiedMeta r). sparqlEndpoint r = Some (v_url v)"
    by blast
qed

theorem emitted_rows_have_endpoint_witness:
  "deriveOnly True mixed_portals =
     [\<lparr>d_portal = 0, d_sparqlEndpoint = Some ''https://a.org/sparql'',
       d_sparqlGuessed = Some False,
       d_sparqlCandidates = sparqlCandidates (mixed_portals ! 0)\<rparr>] \<and>
   (\<exists>c. c \<in> set (sparqlCandidates (mixed_portals ! 0)) \<and>
        Some ''https://a.org/sparql'' = Some (c_url c)) \<and>
   verifyCandidatesByCandidate guessed_by_post mixed_portals (Finite 2) False [0, 1, 0] =
     Resolved
       [\<lparr>r_portal = 0, sparqlEndpoint = Some ''https://a.org/query'', sparqlGuessed = True,
         sparqlVerified = True, sparqlVerifiedBy = Some ask_post,
         sparqlEndpointsVerified = [''https://a.org/query''],
         sparqlEndpointsVerifiedMeta =
           [\<lparr>v_url = ''https://a.org/query'', v_source = Guessed, v_mode = Some ask_post\<rparr>]\<rparr>,
        \<lparr>r_portal = 1, sparqlEndpoint = Some ''https://b.org/sparql'', sparqlGuessed = True,
         sparqlVerified = True, sparqlVerifiedBy = Some ask_post,
         sparqlEndpointsVerified = [''https://b.org/sparql''],
         sparqlEndpointsVerifiedMeta =
           [\<lparr>v_url = ''https://b.org/sparql'', v_source = Guessed, v_mode = Some ask_post\<rparr>]\<rparr>]"
proof -
  let ?d = "\<lparr>d_portal = 0::nat, d_sparqlEndpoint = Some ''https://a.org/sparql'',
       d_sparqlGuessed = Some False,
       d_sparqlCandidates = sparqlCandidates (mixed_portals ! 0)\<rparr>"
  let ?out = "[\<lparr>r_portal = 0::nat, sparqlEndpoint = Some ''https://a.org/query'', sparqlGuessed = True,
         sparqlVerified = True, sparqlVerifiedBy = Some ask_post,
         sparqlEndpointsVerified = [''https://a.org/query''],
         sparqlEndpointsVerifiedMeta =
           [\<lparr>v_url = ''https://a.org/query'', v_source = Guessed, v_mode = Some ask_post\<rparr>]\<rparr>,
        \<lparr>r_portal = 1, sparqlEndpoint = Some ''https://b.org/sparql'', sparqlGuessed = True,
         sparqlVerified = True, sparqlVerifiedBy = Some ask_post,
         sparqlEndpointsVerified = [''https://b.org/sparql''],
         sparqlEndpointsVerifiedMeta =
           [\<lparr>v_url = ''https://b.org/sparql'', v_source = Guessed, v_mode = Some ask_post\<rparr>]\<rparr>]"
  have d: "deriveOnly True mixed_portals = [?d]" by code_simp
  have h: "verifyCandidatesByCandidate guessed_by_post mixed_portals (Finite 2) False [0, 1, 0] = Resolved ?out"
    by code_simp
  note inst = emitted_rows_have_endpoint
    [where strict = True and prepared = mixed_portals and probe = guessed_by_post
       and items = mixed_portals and concurrency = "Finite 2" and order = "[0, 1, 0]" and out = ?out]
  from inst d have "\<exists>c\<in>set (d_sparqlCandidates ?d). d_sparqlEndpoint ?d = Some (c_url c)"
    by simp
  then have "\<exists>c. c \<in> set (sparqlCandidates (mixed_portals ! 0)) \<and>
        Some ''https://a.org/sparql'' = Some (c_url c)" by auto
  with d h show ?thesis by blast
qed


section \<open>Independence of the completion order\<close>

text \<open>
  C1 does not hold as stated. One portal with two guessed candidates, both probes
  succeeding with \<^verbatim>\<open>ask_get\<close>: with two workers the completion order decides which
  entry comes first in the verified map, and with it the chosen endpoint; one worker gives
  the discovery order.
\<close>

theorem chosen_endpoint_depends_on_order:
  "verifyCandidatesByCandidate always_ask_get two_guessed (Finite 2) False [0, 1] =
     Resolved
       [\<lparr>r_portal = 0, sparqlEndpoint = Some ''https://x.org/sparql'', sparqlGuessed = True,
         sparqlVerified = True, sparqlVerifiedBy = Some ask_get,
         sparqlEndpointsVerified = [''https://x.org/sparql'', ''https://x.org/query''],
         sparqlEndpointsVerifiedMeta =
           [\<lparr>v_url = ''https://x.org/sparql'', v_source = Guessed, v_mode = Some ask_get\<rparr>,
            \<lparr>v_url = ''https://x.org/query'', v_source = Guessed, v_mode = Some ask_get\<rparr>]\<rparr>] \<and>
   verifyCandidatesByCandidate always_ask_get two_guessed (Finite 2) False [1, 0] =
     Resolved
       [\<lparr>r_portal = 0, sparqlEndpoint = Some ''https://x.org/query'', sparqlGuessed = True,
         sparqlVerified = True, sparqlVerifiedBy = Some ask_get,
         sparqlEndpointsVerified = [''https://x.org/query'', ''https://x.org/sparql''],
         sparqlEndpointsVerifiedMeta =
           [\<lparr>v_url = ''https://x.org/query'', v_source = Guessed, v_mode = Some ask_get\<rparr>,
            \<lparr>v_url = ''https://x.org/sparql'', v_source = Guessed, v_mode = Some ask_get\<rparr>]\<rparr>] \<and>
   verifyCandidatesByCandidate always_ask_get two_guessed (Finite 1) False [0, 0] =
     Resolved
       [\<lparr>r_portal = 0, sparqlEndpoint = Some ''https://x.org/sparql'', sparqlGuessed = True,
         sparqlVerified = True, sparqlVerifiedBy = Some ask_get,
         sparqlEndpointsVerified = [''https://x.org/sparql'', ''https://x.org/query''],
         sparqlEndpointsVerifiedMeta =
           [\<lparr>v_url = ''https://x.org/sparql'', v_source = Guessed, v_mode = Some ask_get\<rparr>,
            \<lparr>v_url = ''https://x.org/query'', v_source = Guessed, v_mode = Some ask_get\<rparr>]\<rparr>]"
  by code_simp

text \<open>
  C1, amended. Fix the probe outcome of every task and let the candidate URLs of every
  portal be distinct. Two executions that run to completion, with whatever completion
  orders and concurrency values other than \<^verbatim>\<open>NaN\<close>, then produce rows for the same
  portals, with the same verified entries up to their order and the same guessed flag; the
  chosen endpoint and its confirming mode agree as well whenever the verified entries hold
  exactly one explicit entry, or one entry in all.
\<close>

theorem verified_sets_independent_of_order:
  assumes "\<forall>p\<in>set items. distinct (map c_url (sparqlCandidates p))"
    and "verifyCandidatesByCandidate (\<lambda>t. Inr (p t)) items c1 strict o1 = Resolved out1"
    and "verifyCandidatesByCandidate (\<lambda>t. Inr (p t)) items c2 strict o2 = Resolved out2"
    and "c1 \<noteq> NaN" and "c2 \<noteq> NaN"
  shows "length out1 = length out2 \<and>
         (\<forall>k<length out1.
            r_portal (out1 ! k) = r_portal (out2 ! k) \<and>
            set (sparqlEndpointsVerifiedMeta (out1 ! k)) = set (sparqlEndpointsVerifiedMeta (out2 ! k)) \<and>
            set (sparqlEndpointsVerified (out1 ! k)) = set (sparqlEndpointsVerified (out2 ! k)) \<and>
            sparqlGuessed (out1 ! k) = sparqlGuessed (out2 ! k) \<and>
            (length (filter (\<lambda>v. v_source v = Explicit) (sparqlEndpointsVerifiedMeta (out1 ! k))) = 1 \<or>
             length (sparqlEndpointsVerifiedMeta (out1 ! k)) = 1 \<longrightarrow>
               sparqlEndpoint (out1 ! k) = sparqlEndpoint (out2 ! k) \<and>
               sparqlVerifiedBy (out1 ! k) = sparqlVerifiedBy (out2 ! k)))"
proof -
  from schedule_independent_rows[OF assms] have l: "list_all2 same_row out1 out2" .
  then have len: "length out1 = length out2" by (rule list_all2_lengthD)
  have "\<And>k. k < length out1 \<Longrightarrow> same_row (out1 ! k) (out2 ! k)"
    using l by (simp add: list_all2_conv_all_nth)
  then show ?thesis using len unfolding same_row_def by blast
qed

theorem verified_sets_independent_of_order_witness:
  "verifyCandidatesByCandidate always_ask_get one_explicit_two_guessed (Finite 3) False [0, 1, 2] =
     Resolved
       [\<lparr>r_portal = 0, sparqlEndpoint = Some ''https://x.org/sparql'', sparqlGuessed = False,
         sparqlVerified = True, sparqlVerifiedBy = Some ask_get,
         sparqlEndpointsVerified =
           [''https://x.org/sparql'', ''https://x.org/query'', ''https://x.org/api/sparql''],
         sparqlEndpointsVerifiedMeta =
           [\<lparr>v_url = ''https://x.org/sparql'', v_source = Explicit, v_mode = Some ask_get\<rparr>,
            \<lparr>v_url = ''https://x.org/query'', v_source = Guessed, v_mode = Some ask_get\<rparr>,
            \<lparr>v_url = ''https://x.org/api/sparql'', v_source = Guessed, v_mode = Some ask_get\<rparr>]\<rparr>] \<and>
   (\<exists>r2. verifyCandidatesByCandidate always_ask_get one_explicit_two_guessed (Finite 2) False [1, 1, 0] =
           Resolved [r2] \<and>
         sparqlEndpointsVerified r2 =
           [''https://x.org/query'', ''https://x.org/api/sparql'', ''https://x.org/sparql''] \<and>
         set (sparqlEndpointsVerifiedMeta r2) =
           {\<lparr>v_url = ''https://x.org/sparql'', v_source = Explicit, v_mode = Some ask_get\<rparr>,
            \<lparr>v_url = ''https://x.org/query'', v_source = Guessed, v_mode = Some ask_get\<rparr>,
            \<lparr>v_url = ''https://x.org/api/sparql'', v_source = Guessed, v_mode = Some ask_get\<rparr>} \<and>
         sparqlEndpoint r2 = Some ''https://x.org/sparql'' \<and>
         sparqlVerifiedBy r2 = Some ask_get)"
proof -
  let ?p = "\<lambda>t::task. \<lparr>ok = True, mode = Some ask_get\<rparr>"
  let ?r1 = "\<lparr>r_portal = 0::nat, sparqlEndpoint = Some ''https://x.org/sparql'', sparqlGuessed = False,
         sparqlVerified = True, sparqlVerifiedBy = Some ask_get,
         sparqlEndpointsVerified =
           [''https://x.org/sparql'', ''https://x.org/query'', ''https://x.org/api/sparql''],
         sparqlEndpointsVerifiedMeta =
           [\<lparr>v_url = ''https://x.org/sparql'', v_source = Explicit, v_mode = Some ask_get\<rparr>,
            \<lparr>v_url = ''https://x.org/query'', v_source = Guessed, v_mode = Some ask_get\<rparr>,
            \<lparr>v_url = ''https://x.org/api/sparql'', v_source = Guessed, v_mode = Some ask_get\<rparr>]\<rparr>"
  let ?r2 = "\<lparr>r_portal = 0::nat, sparqlEndpoint = Some ''https://x.org/sparql'', sparqlGuessed = False,
         sparqlVerified = True, sparqlVerifiedBy = Some ask_get,
         sparqlEndpointsVerified =
           [''https://x.org/query'', ''https://x.org/api/sparql'', ''https://x.org/sparql''],
         sparqlEndpointsVerifiedMeta =
           [\<lparr>v_url = ''https://x.org/query'', v_source = Guessed, v_mode = Some ask_get\<rparr>,
            \<lparr>v_url = ''https://x.org/api/sparql'', v_source = Guessed, v_mode = Some ask_get\<rparr>,
            \<lparr>v_url = ''https://x.org/sparql'', v_source = Explicit, v_mode = Some ask_get\<rparr>]\<rparr>"
  have pe: "always_ask_get = (\<lambda>t. Inr (?p t))"
    by (rule ext) (simp add: always_ask_get_def)
  have d: "\<forall>p\<in>set one_explicit_two_guessed. distinct (map c_url (sparqlCandidates p))"
    by (simp add: one_explicit_two_guessed_def)
  have h1: "verifyCandidatesByCandidate always_ask_get one_explicit_two_guessed (Finite 3) False [0, 1, 2] =
              Resolved [?r1]"
    by code_simp
  have h2: "verifyCandidatesByCandidate always_ask_get one_explicit_two_guessed (Finite 2) False [1, 1, 0] =
              Resolved [?r2]"
    by code_simp
  have nn: "Finite 3 \<noteq> NaN" "Finite 2 \<noteq> NaN" by simp_all
  note inst = verified_sets_independent_of_order
    [where p = ?p and items = one_explicit_two_guessed and strict = False
       and ?c1.0 = "Finite 3" and ?c2.0 = "Finite 2" and ?o1.0 = "[0, 1, 2]" and ?o2.0 = "[1, 1, 0]"
       and ?out1.0 = "[?r1]" and ?out2.0 = "[?r2]",
     OF d h1[unfolded pe] h2[unfolded pe] nn]
  from inst have "set (sparqlEndpointsVerifiedMeta ?r1) = set (sparqlEndpointsVerifiedMeta ?r2) \<and>
      sparqlEndpoint ?r1 = sparqlEndpoint ?r2 \<and> sparqlVerifiedBy ?r1 = sparqlVerifiedBy ?r2"
    by simp
  then have "set (sparqlEndpointsVerifiedMeta ?r2) =
           {\<lparr>v_url = ''https://x.org/sparql'', v_source = Explicit, v_mode = Some ask_get\<rparr>,
            \<lparr>v_url = ''https://x.org/query'', v_source = Guessed, v_mode = Some ask_get\<rparr>,
            \<lparr>v_url = ''https://x.org/api/sparql'', v_source = Guessed, v_mode = Some ask_get\<rparr>} \<and>
         sparqlEndpoint ?r2 = Some ''https://x.org/sparql'' \<and>
         sparqlVerifiedBy ?r2 = Some ask_get"
    by simp
  with h1 h2 show ?thesis by simp
qed


section \<open>Exceptions in a worker\<close>

text \<open>
  C8 does not hold as stated. The loop of the worker has no \<^verbatim>\<open>try\<close>: when the probe of
  one task throws, the engine is rejected in every completion order, with one worker and
  with two, and the rows of the other task, whose probe succeeds, are never produced.
\<close>

theorem worker_does_not_catch:
  "verifyCandidatesByCandidate query_throws two_guessed (Finite 2) False [1] = Rejected ProbeFault \<and>
   verifyCandidatesByCandidate query_throws two_guessed (Finite 2) False [1, 0] = Rejected ProbeFault \<and>
   verifyCandidatesByCandidate query_throws two_guessed (Finite 2) False [0, 1] = Rejected ProbeFault \<and>
   verifyCandidatesByCandidate query_throws two_guessed (Finite 1) False [0, 0] = Rejected ProbeFault"
  by code_simp

text \<open>
  C8, amended. An exception thrown by the probe of a claimed task is not caught by the
  worker: it rejects the worker's promise and with it the engine, whatever completes
  afterwards, so no rows are produced. Negative probe outcomes are no exceptions: when
  every probe returns an outcome the engine is never rejected by a worker. (It is rejected
  then only when the array of workers cannot be created, for a concurrency that is
  infinite or above 4294967295, whatever the probes return.)
\<close>

theorem probe_exception_rejects_engine:
  "(runnerCount concurrency = Inr W \<and>
    run probe (buildTasks items) order
      (launch (buildTasks items) (length items) W) = Inr s \<and>
    w < length (runners s) \<and> runners s ! w = Some (j, t) \<and> probe t = Inl e \<longrightarrow>
      verifyCandidatesByCandidate probe items concurrency strict (order @ w # rest) = Rejected e) \<and>
   ((\<forall>t\<in>set (buildTasks items). \<exists>res. probe t = Inr res) \<longrightarrow>
      (verifyCandidatesByCandidate probe items concurrency strict order = Rejected e) =
      (e = RangeError \<and>
       (concurrency = PosInfinity \<or> (\<exists>c>4294967295. concurrency = Finite c))))"
proof (intro conjI impI)
  assume a: "runnerCount concurrency = Inr W \<and>
    run probe (buildTasks items) order
      (launch (buildTasks items) (length items) W) = Inr s \<and>
    w < length (runners s) \<and> runners s ! w = Some (j, t) \<and> probe t = Inl e"
  then have "resume probe (buildTasks items) w s = Inl e" by (simp add: resume_fault)
  with a have "run probe (buildTasks items) (order @ w # rest)
      (launch (buildTasks items) (length items) W) = Inl e"
    by (simp add: run_append)
  with a show "verifyCandidatesByCandidate probe items concurrency strict (order @ w # rest) = Rejected e"
    by (simp add: verifyCandidatesByCandidate_def Let_def)
next
  assume p: "\<forall>t\<in>set (buildTasks items). \<exists>res. probe t = Inr res"
  have idx: "\<forall>t\<in>set (buildTasks items). portalIndex t < length items"
    by (simp add: buildTasks_portalIndex)
  have nf: "\<exists>s'. run probe (buildTasks items) order
                   (launch (buildTasks items) (length items) W) = Inr s'" for W
  proof -
    have "pool_inv (buildTasks items) (length items) W
            (launch (buildTasks items) (length items) W)"
      by (simp add: launch_eq pool_inv_launched)
    from run_no_fault[OF p idx this] show ?thesis .
  qed
  have rc: "(runnerCount concurrency = Inl e) =
            (e = RangeError \<and>
             (concurrency = PosInfinity \<or> (\<exists>c>4294967295. concurrency = Finite c)))"
    by (cases concurrency)
       (auto simp: runnerCount_def Math_max_def ToLength_def Let_def split: if_splits)
  have "(verifyCandidatesByCandidate probe items concurrency strict order = Rejected e) =
        (runnerCount concurrency = Inl e)"
  proof (cases "runnerCount concurrency")
    case (Inl e')
    then show ?thesis by (auto simp: verifyCandidatesByCandidate_def Let_def)
  next
    case (Inr W)
    from nf[of W] obtain s' where "run probe (buildTasks items) order
                   (launch (buildTasks items) (length items) W) = Inr s'" by blast
    with Inr show ?thesis by (simp add: verifyCandidatesByCandidate_def Let_def)
  qed
  with rc show "(verifyCandidatesByCandidate probe items concurrency strict order = Rejected e) =
      (e = RangeError \<and>
       (concurrency = PosInfinity \<or> (\<exists>c>4294967295. concurrency = Finite c)))"
    by simp
qed

theorem probe_exception_rejects_engine_witness:
  "verifyCandidatesByCandidate query_throws two_guessed (Finite 2) False ([0] @ 1 # [0, 1]) =
     Rejected ProbeFault \<and>
   verifyCandidatesByCandidate always_ask_get two_guessed (Finite 2) False [0] \<noteq> Rejected ProbeFault \<and>
   verifyCandidatesByCandidate always_ask_get two_guessed PosInfinity False [0] =
     Rejected RangeError"
proof -
  let ?t0 = "\<lparr>portalIndex = 0, t_url = ''https://x.org/sparql'', t_source = Guessed\<rparr>"
  let ?t1 = "\<lparr>portalIndex = 0, t_url = ''https://x.org/query'', t_source = Guessed\<rparr>"
  let ?mid = "\<lparr>cursor = 3,
      verifiedMap = [[(''https://x.org/sparql'',
         \<lparr>v_url = ''https://x.org/sparql'', v_source = Guessed, v_mode = Some ask_get\<rparr>)]],
      runners = [None, Some (1, ?t1)], claimed = [(0, 0), (1, 1)]\<rparr>"
  have c: "runnerCount (Finite 2) = Inr 2" by code_simp
  have r: "run query_throws (buildTasks two_guessed) [0]
             (launch (buildTasks two_guessed) (length two_guessed) 2) = Inr ?mid"
    by code_simp
  have w: "1 < length (runners ?mid)" "runners ?mid ! 1 = Some (1, ?t1)" by simp_all
  have e: "query_throws ?t1 = Inl ProbeFault" by (simp add: query_throws_def)
  have ok: "\<forall>t\<in>set (buildTasks two_guessed). \<exists>res. always_ask_get t = Inr res"
    by (simp add: always_ask_get_def)
  note a = probe_exception_rejects_engine
    [where probe = query_throws and items = two_guessed and order = "[0]"
       and concurrency = "Finite 2" and W = 2
       and s = ?mid and w = 1 and j = 1 and t = ?t1 and e = ProbeFault and strict = False
       and rest = "[0, 1]"]
  from a c r w e have "verifyCandidatesByCandidate query_throws two_guessed (Finite 2) False ([0] @ 1 # [0, 1]) =
     Rejected ProbeFault" by blast
  moreover from probe_exception_rejects_engine
    [where probe = always_ask_get and items = two_guessed and order = "[0]"
       and concurrency = "Finite 2" and strict = False and e = ProbeFault] ok
  have "verifyCandidatesByCandidate always_ask_get two_guessed (Finite 2) False [0] \<noteq> Rejected ProbeFault"
    by simp
  moreover from probe_exception_rejects_engine
    [where probe = always_ask_get and items = two_guessed and order = "[0]"
       and concurrency = PosInfinity and strict = False and e = RangeError] ok
  have "verifyCandidatesByCandidate always_ask_get two_guessed PosInfinity False [0] =
          Rejected RangeError"
    by simp
  ultimately show ?thesis by simp
qed


section \<open>The prober and the HTML rule\<close>

text \<open>
  C2. Name the results of the three strategies \<open>g\<close>, \<open>p\<close> and \<open>d\<close>, each run on the
  requests the one before has left. The prober returns the mode of the first of them that
  succeeds, in the order GET, POST, description, and \<^verbatim>\<open>{ ok: false, mode: null }\<close> exactly
  when all three fail. The requests it sends show the order and the short cut: the GET
  request (none when the URL is invalid), then the POST request unless GET succeeded, then
  the description request unless POST succeeded.
\<close>

theorem prober_tries_strategies_in_order:
  assumes g: "tryAskGet pf endpoint ''ASK {}'' timeoutMs sent = (g, s1)"
    and p: "tryAskPost pf endpoint ''ASK {}'' timeoutMs s1 = (p, s2)"
    and d: "tryServiceDescription pf endpoint timeoutMs s2 = (d, s3)"
  shows "validateSparqlEndpoint pf endpoint timeoutMs sent =
           (if g then (\<lparr>ok = True, mode = Some ask_get\<rparr>, s1)
            else if p then (\<lparr>ok = True, mode = Some ask_post\<rparr>, s2)
            else if d then (\<lparr>ok = True, mode = Some service_description\<rparr>, s3)
            else (\<lparr>ok = False, mode = None\<rparr>, s3)) \<and>
         (fst (validateSparqlEndpoint pf endpoint timeoutMs sent) = \<lparr>ok = False, mode = None\<rparr>)
           = (\<not> g \<and> \<not> p \<and> \<not> d) \<and>
         snd (validateSparqlEndpoint pf endpoint timeoutMs sent) =
           sent @
           (case URL_with_query pf endpoint ''query'' ''ASK {}'' of
              None \<Rightarrow> [] | Some u \<Rightarrow> [askGetRequest u timeoutMs]) @
           (if g then []
            else askPostRequest pf endpoint timeoutMs #
                 (if p then [] else [descriptionRequest endpoint timeoutMs]))"
proof -
  have v: "validateSparqlEndpoint pf endpoint timeoutMs sent =
           (if g then (\<lparr>ok = True, mode = Some ask_get\<rparr>, s1)
            else if p then (\<lparr>ok = True, mode = Some ask_post\<rparr>, s2)
            else if d then (\<lparr>ok = True, mode = Some service_description\<rparr>, s3)
            else (\<lparr>ok = False, mode = None\<rparr>, s3))"
    using g p d by (simp add: validateSparqlEndpoint_def Let_def)
  from g tryAskGet_sent[of pf endpoint "''ASK {}''" timeoutMs sent]
  have s1: "s1 = sent @ (case URL_with_query pf endpoint ''query'' ''ASK {}'' of
              None \<Rightarrow> [] | Some u \<Rightarrow> [askGetRequest u timeoutMs])" by simp
  from p tryAskPost_sent[of pf endpoint timeoutMs s1]
  have s2: "s2 = s1 @ [askPostRequest pf endpoint timeoutMs]" by simp
  from d tryServiceDescription_sent[of pf endpoint timeoutMs s2]
  have s3: "s3 = s2 @ [descriptionRequest endpoint timeoutMs]" by simp
  have f: "(fst (validateSparqlEndpoint pf endpoint timeoutMs sent) = \<lparr>ok = False, mode = None\<rparr>)
           = (\<not> g \<and> \<not> p \<and> \<not> d)"
    unfolding v by simp
  have t: "snd (validateSparqlEndpoint pf endpoint timeoutMs sent) =
           sent @
           (case URL_with_query pf endpoint ''query'' ''ASK {}'' of
              None \<Rightarrow> [] | Some u \<Rightarrow> [askGetRequest u timeoutMs]) @
           (if g then []
            else askPostRequest pf endpoint timeoutMs #
                 (if p then [] else [descriptionRequest endpoint timeoutMs]))"
    unfolding v using s1 s2 s3 by simp
  from v f t show ?thesis by blast
qed

theorem prober_tries_strategies_in_order_witness:
  "validateSparqlEndpoint post_only ''https://x.org/sparql'' 8000 [] =
     (\<lparr>ok = True, mode = Some ask_post\<rparr>,
      [askGetRequest ''https://x.org/sparql?query=ASK+%7B%7D'' 8000,
       askPostRequest post_only ''https://x.org/sparql'' 8000]) \<and>
   validateSparqlEndpoint html_wall ''https://x.org/sparql'' 8000 [] =
     (\<lparr>ok = False, mode = None\<rparr>,
      [askGetRequest ''https://x.org/sparql?query=ASK+%7B%7D'' 8000,
       askPostRequest html_wall ''https://x.org/sparql'' 8000,
       descriptionRequest ''https://x.org/sparql'' 8000])"
proof -
  let ?e = "''https://x.org/sparql''"
  let ?g = "askGetRequest ''https://x.org/sparql?query=ASK+%7B%7D'' 8000"
  have g: "tryAskGet post_only ?e ''ASK {}'' 8000 [] = (False, [?g])" by code_simp
  have p: "tryAskPost post_only ?e ''ASK {}'' 8000 [?g] =
             (True, [?g, askPostRequest post_only ?e 8000])" by code_simp
  have d: "tryServiceDescription post_only ?e 8000 [?g, askPostRequest post_only ?e 8000] =
             (False, [?g, askPostRequest post_only ?e 8000, descriptionRequest ?e 8000])"
    by code_simp
  have g': "tryAskGet html_wall ?e ''ASK {}'' 8000 [] = (False, [?g])" by code_simp
  have p': "tryAskPost html_wall ?e ''ASK {}'' 8000 [?g] =
             (False, [?g, askPostRequest html_wall ?e 8000])" by code_simp
  have d': "tryServiceDescription html_wall ?e 8000 [?g, askPostRequest html_wall ?e 8000] =
             (False, [?g, askPostRequest html_wall ?e 8000, descriptionRequest ?e 8000])"
    by code_simp
  from prober_tries_strategies_in_order[OF g p d] prober_tries_strategies_in_order[OF g' p' d']
  show ?thesis by simp
qed

text \<open>
  C3. A content type that contains \<^verbatim>\<open>text/html\<close> makes \<^verbatim>\<open>looksLikeHtml\<close> true for every
  body, and a GET or POST acknowledgment probe that receives a response with such a
  content type fails, whatever the status and the body are.
\<close>

theorem html_content_type_is_rejected:
  assumes "includesStr ct ''text/html''"
  shows "looksLikeHtml ct body \<and>
         (URL_with_query pf endpoint ''query'' ''ASK {}'' = Some u \<and>
          fetch pf sent (askGetRequest u timeoutMs) =
            Some \<lparr>rs_ok = b, rs_content_type = Some ct, rs_text = Some body\<rparr> \<longrightarrow>
            fst (tryAskGet pf endpoint ''ASK {}'' timeoutMs sent) = False) \<and>
         (fetch pf sent (askPostRequest pf endpoint timeoutMs) =
            Some \<lparr>rs_ok = b, rs_content_type = Some ct, rs_text = Some body\<rparr> \<longrightarrow>
            fst (tryAskPost pf endpoint ''ASK {}'' timeoutMs sent) = False)"
proof (intro conjI impI)
  from includes_text_html_lower[OF assms] show h: "looksLikeHtml ct body"
    by (rule looksLikeHtml_content_type)
  {
    assume a: "URL_with_query pf endpoint ''query'' ''ASK {}'' = Some u \<and>
          fetch pf sent (askGetRequest u timeoutMs) =
            Some \<lparr>rs_ok = b, rs_content_type = Some ct, rs_text = Some body\<rparr>"
    then have "fetchText pf (askGetRequest u timeoutMs) sent =
        (\<lparr>f_res = Some b, f_ct = ct, f_text = body\<rparr>, sent @ [askGetRequest u timeoutMs])"
      by (simp add: fetchText_response)
    with a h show "fst (tryAskGet pf endpoint ''ASK {}'' timeoutMs sent) = False"
      by (simp add: tryAskGet_def askGetRequest_def)
  }
  {
    assume a: "fetch pf sent (askPostRequest pf endpoint timeoutMs) =
            Some \<lparr>rs_ok = b, rs_content_type = Some ct, rs_text = Some body\<rparr>"
    then have "fetchText pf (askPostRequest pf endpoint timeoutMs) sent =
        (\<lparr>f_res = Some b, f_ct = ct, f_text = body\<rparr>, sent @ [askPostRequest pf endpoint timeoutMs])"
      by (simp add: fetchText_response)
    with h show "fst (tryAskPost pf endpoint ''ASK {}'' timeoutMs sent) = False"
      by (simp add: tryAskPost_def askPostRequest_def Let_def)
  }
qed

theorem html_content_type_is_rejected_witness:
  "looksLikeJsonAsk (JSON_parse html_wall) boolean_true_body \<and>
   looksLikeHtml ''text/html; charset=utf-8'' boolean_true_body \<and>
   fst (tryAskGet html_wall ''https://x.org/sparql'' ''ASK {}'' 8000 []) = False \<and>
   fst (tryAskPost html_wall ''https://x.org/sparql'' ''ASK {}'' 8000 []) = False"
proof -
  have j: "looksLikeJsonAsk (JSON_parse html_wall) boolean_true_body" by code_simp
  have c: "includesStr ''text/html; charset=utf-8'' ''text/html''" by code_simp
  have u: "URL_with_query html_wall ''https://x.org/sparql'' ''query'' ''ASK {}'' =
             Some ''https://x.org/sparql?query=ASK+%7B%7D''"
    by (simp add: html_wall_def)
  have f1: "fetch html_wall [] (askGetRequest ''https://x.org/sparql?query=ASK+%7B%7D'' 8000) =
      Some \<lparr>rs_ok = True, rs_content_type = Some ''text/html; charset=utf-8'',
            rs_text = Some boolean_true_body\<rparr>"
    by (simp add: html_wall_def)
  have f2: "fetch html_wall [] (askPostRequest html_wall ''https://x.org/sparql'' 8000) =
      Some \<lparr>rs_ok = True, rs_content_type = Some ''text/html; charset=utf-8'',
            rs_text = Some boolean_true_body\<rparr>"
    by (simp add: html_wall_def)
  note inst = html_content_type_is_rejected
    [OF c, where body = boolean_true_body and pf = html_wall and endpoint = "''https://x.org/sparql''"
       and u = "''https://x.org/sparql?query=ASK+%7B%7D''" and sent = "[]" and timeoutMs = 8000
       and b = True]
  from inst u f1 f2 j show ?thesis by blast
qed


section \<open>The XML boolean acknowledgment\<close>

text \<open>
  C4 does not hold as stated in its second part. A successful GET response with content
  type \<^verbatim>\<open>application/sparql-results+xml\<close> whose body contains the acknowledgment after
  \<^verbatim>\<open><html>\<close> passes the XML check, but the body looks like HTML, so the GET and the POST
  probe reject it, the description probe rejects the content type, and the prober fails.
\<close>

theorem xml_ack_in_html_body_fails:
  "includesStr (''<html>'' @ xml_ack_body) xml_ack_body \<and>
   looksLikeXmlAsk (''<html>'' @ xml_ack_body) \<and>
   fetch xml_ack_in_html [] (askGetRequest ''https://x.org/sparql?query=ASK+%7B%7D'' 8000) =
     Some \<lparr>rs_ok = True, rs_content_type = Some ''application/sparql-results+xml'',
           rs_text = Some (''<html>'' @ xml_ack_body)\<rparr> \<and>
   validateSparqlEndpoint xml_ack_in_html ''https://x.org/sparql'' 8000 [] =
     (\<lparr>ok = False, mode = None\<rparr>,
      [askGetRequest ''https://x.org/sparql?query=ASK+%7B%7D'' 8000,
       askPostRequest xml_ack_in_html ''https://x.org/sparql'' 8000,
       descriptionRequest ''https://x.org/sparql'' 8000])"
proof -
  have i: "includesStr (''<html>'' @ xml_ack_body) xml_ack_body"
    unfolding includesStr_iff by (rule exI[of _ "''<html>''"], rule exI[of _ "[]"]) simp
  have "''<html>'' @ xml_ack_body = ''<html>'' @ xml_ack_body @ []"
    "length (''<html>'' @ xml_ack_body) \<le> 200000"
    by (simp_all add: xml_ack_body_def)
  then have x: "looksLikeXmlAsk (''<html>'' @ xml_ack_body)" by (rule xml_ack_contained)
  have f: "fetch xml_ack_in_html [] (askGetRequest ''https://x.org/sparql?query=ASK+%7B%7D'' 8000) =
     Some \<lparr>rs_ok = True, rs_content_type = Some ''application/sparql-results+xml'',
           rs_text = Some (''<html>'' @ xml_ack_body)\<rparr>"
    by (simp add: xml_ack_in_html_def)
  have v: "validateSparqlEndpoint xml_ack_in_html ''https://x.org/sparql'' 8000 [] =
     (\<lparr>ok = False, mode = None\<rparr>,
      [askGetRequest ''https://x.org/sparql?query=ASK+%7B%7D'' 8000,
       askPostRequest xml_ack_in_html ''https://x.org/sparql'' 8000,
       descriptionRequest ''https://x.org/sparql'' 8000])"
    by code_simp
  from i x f v show ?thesis by blast
qed

text \<open>
  C4, amended. \<^verbatim>\<open>looksLikeXmlAsk\<close> is true exactly when the first 200000 code units of the
  body have the shape \<open>sparql_boolean_shaped\<close>. A successful GET response with content
  type \<^verbatim>\<open>application/sparql-results+xml\<close> whose body contains
  \<^verbatim>\<open><sparql><results><boolean>true</boolean></results></sparql>\<close> within its first 200000
  code units, and does not look like HTML, makes the prober succeed with mode
  \<^verbatim>\<open>ask_get\<close> after this one request.
\<close>

theorem xml_ack_classifier:
  "(looksLikeXmlAsk body \<longleftrightarrow> sparql_boolean_shaped (take 200000 body)) \<and>
   (URL_with_query pf endpoint ''query'' ''ASK {}'' = Some u \<and>
    fetch pf sent (askGetRequest u timeoutMs) =
      Some \<lparr>rs_ok = True, rs_content_type = Some ''application/sparql-results+xml'',
            rs_text = Some body\<rparr> \<and>
    body = pre @ xml_ack_body @ post \<and> length (pre @ xml_ack_body) \<le> 200000 \<and>
    \<not> looksLikeHtml ''application/sparql-results+xml'' body \<longrightarrow>
      validateSparqlEndpoint pf endpoint timeoutMs sent =
        (\<lparr>ok = True, mode = Some ask_get\<rparr>, sent @ [askGetRequest u timeoutMs]))"
proof (intro conjI impI)
  show "looksLikeXmlAsk body \<longleftrightarrow> sparql_boolean_shaped (take 200000 body)"
    by (rule looksLikeXmlAsk_shaped)
next
  assume a: "URL_with_query pf endpoint ''query'' ''ASK {}'' = Some u \<and>
    fetch pf sent (askGetRequest u timeoutMs) =
      Some \<lparr>rs_ok = True, rs_content_type = Some ''application/sparql-results+xml'',
            rs_text = Some body\<rparr> \<and>
    body = pre @ xml_ack_body @ post \<and> length (pre @ xml_ack_body) \<le> 200000 \<and>
    \<not> looksLikeHtml ''application/sparql-results+xml'' body"
  then have x: "looksLikeXmlAsk body" using xml_ack_contained by blast
  from a have f: "fetchText pf (askGetRequest u timeoutMs) sent =
      (\<lparr>f_res = Some True, f_ct = ''application/sparql-results+xml'', f_text = body\<rparr>,
       sent @ [askGetRequest u timeoutMs])"
    by (simp add: fetchText_response)
  from a have u: "URL_with_query pf endpoint ''query'' ''ASK {}'' = Some u"
    and h: "\<not> looksLikeHtml ''application/sparql-results+xml'' body" by blast+
  have g: "tryAskGet pf endpoint ''ASK {}'' timeoutMs sent = (True, sent @ [askGetRequest u timeoutMs])"
    unfolding tryAskGet_def u
    using f[unfolded askGetRequest_def] h x sparql_xml_content_type
    by (simp add: Let_def askGetRequest_def)
  then show "validateSparqlEndpoint pf endpoint timeoutMs sent =
        (\<lparr>ok = True, mode = Some ask_get\<rparr>, sent @ [askGetRequest u timeoutMs])"
    by (simp add: validateSparqlEndpoint_def)
qed

theorem xml_ack_classifier_witness:
  "looksLikeXmlAsk xml_ack_body \<and>
   validateSparqlEndpoint xml_ack ''https://x.org/sparql'' 8000 [] =
     (\<lparr>ok = True, mode = Some ask_get\<rparr>,
      [askGetRequest ''https://x.org/sparql?query=ASK+%7B%7D'' 8000])"
proof -
  have u: "URL_with_query xml_ack ''https://x.org/sparql'' ''query'' ''ASK {}'' =
             Some ''https://x.org/sparql?query=ASK+%7B%7D''"
    by (simp add: xml_ack_def)
  have f: "fetch xml_ack [] (askGetRequest ''https://x.org/sparql?query=ASK+%7B%7D'' 8000) =
      Some \<lparr>rs_ok = True, rs_content_type = Some ''application/sparql-results+xml'',
            rs_text = Some xml_ack_body\<rparr>"
    by (simp add: xml_ack_def)
  have b: "xml_ack_body = [] @ xml_ack_body @ []" by simp
  have l: "length ([] @ xml_ack_body) \<le> 200000" by (simp add: xml_ack_body_def)
  have h: "\<not> looksLikeHtml ''application/sparql-results+xml'' xml_ack_body" by code_simp
  have x: "looksLikeXmlAsk xml_ack_body" by (rule xml_ack_contained[OF b l])
  note inst = xml_ack_classifier
    [where body = xml_ack_body and pf = xml_ack and endpoint = "''https://x.org/sparql''"
       and u = "''https://x.org/sparql?query=ASK+%7B%7D''" and sent = "[]" and timeoutMs = 8000
       and pre = "[]" and post = "[]"]
  from inst u f b l h have "validateSparqlEndpoint xml_ack ''https://x.org/sparql'' 8000 [] =
     (\<lparr>ok = True, mode = Some ask_get\<rparr>,
      [] @ [askGetRequest ''https://x.org/sparql?query=ASK+%7B%7D'' 8000])" by blast
  moreover from inst x have "sparql_boolean_shaped (take 200000 xml_ack_body)" by blast
  ultimately show ?thesis using x by simp
qed

end
